theory Spec2Isabelle
  imports Main "HOL-Library.Word" "HOL-Library.Signed_Division" "HOL-Library.Log_Nat"
begin

unbundle bit_operations_syntax

section \<open>Data model (src/src/main.cpp)\<close>

text \<open>
  The program works on fixed-width machine integers: \<open>std::uint8_t\<close> intensities,
  \<open>std::int16_t\<close> font metrics and \<open>std::uint32_t\<close> coordinates. They are
  words here, so every \<open>+\<close> and \<open>*\<close> wraps exactly as in the C++ code.
\<close>

type_synonym u8 = "8 word"
type_synonym i8 = "8 word"
type_synonym i16 = "16 word"
type_synonym u32 = "32 word"

text \<open>\<open>struct Monochrome\<close> holds one \<open>std::uint8_t intensity\<close>.\<close>

type_synonym Monochrome = u8

section \<open>Monochrome threshold filter\<close>

text \<open>
  \<open>filter_monochrome\<close> (main.cpp:180-190) walks the vector and overwrites each
  element: below \<open>MINIMUM = 0x4F\<close> it becomes 0, otherwise \<open>0xFF\<close>.
\<close>

definition MINIMUM :: u8 where
  "MINIMUM = 0x4F"

primrec filter_monochrome :: "Monochrome list \<Rightarrow> Monochrome list" where
  "filter_monochrome [] = []"
| "filter_monochrome (m # monochrome_data) =
     (if m < MINIMUM then 0 else 0xFF) # filter_monochrome monochrome_data"

section \<open>Single-precision arithmetic\<close>

text \<open>
  The match score is a C++ \<open>float\<close>. A finite \<open>float\<close> is modelled by the rational
  number it denotes, and every operation rounds its exact result with \<open>f32\<close>: to the
  nearest number with a 24-bit significand, ties to the even significand (IEEE 754
  binary32, round-to-nearest-even). The exponent is not bounded here; the values the
  program forms from 32-bit unsigned integers are 0 or lie between \<open>1 / 2 ^ 32\<close> and
  \<open>2 ^ 33\<close>, inside the normal range of binary32.
\<close>

definition round_half_even :: "rat \<Rightarrow> int" where
  "round_half_even q =
     (let f = \<lfloor>q\<rfloor>; d = q - of_int f in
      if d < 1 / 2 then f else if 1 / 2 < d then f + 1 else if even f then f else f + 1)"

text \<open>\<open>ilog2 q\<close> is the exponent \<open>e\<close> with \<open>2 powi e \<le> q < 2 powi (e + 1)\<close>, for \<open>q > 0\<close>.\<close>

definition ilog2 :: "rat \<Rightarrow> int" where
  "ilog2 q =
     (let k = bitlen (fst (quotient_of q)) - bitlen (snd (quotient_of q))
      in if 2 powi k \<le> q then k else k - 1)"

definition f32 :: "rat \<Rightarrow> rat" where
  "f32 q =
     (if q = 0 then 0
      else let u = 2 powi (ilog2 \<bar>q\<bar> - 23)
           in sgn q * of_int (round_half_even (\<bar>q\<bar> / u)) * u)"

text \<open>Conversion of a \<open>std::uint32_t\<close> to \<open>float\<close>.\<close>

definition u32_to_float :: "u32 \<Rightarrow> rat" where
  "u32_to_float n = f32 (of_nat (unat n))"

section \<open>Failures\<close>

text \<open>
  The ways a run can fail to produce a value. \<open>OutOfBounds\<close> is an access beyond the
  end of a \<open>std::vector\<close> (undefined behaviour in C++), \<open>Uninitialized\<close> a read of
  a variable that was never assigned, \<open>NotFinite\<close> a float division by zero (its
  result, infinity or NaN, is no rational), \<open>OutOfFuel\<close> a loop cut off by the
  iteration bound of the model, and \<open>ExitFailure\<close> the call
  \<open>std::exit(EXIT_FAILURE)\<close> of \<open>find_header_text\<close>, with what it reports: the
  text searched, the best-guess location (absent when nothing was ever assigned) and
  the best score.
\<close>

datatype error =
    OutOfBounds
  | Uninitialized
  | NotFinite
  | OutOfFuel
  | ExitFailure "u8 list" "(u32 \<times> u32) option" rat

definition and_then :: "error + 'a \<Rightarrow> ('a \<Rightarrow> error + 'b) \<Rightarrow> error + 'b" where
  "and_then m f = (case m of Inl e \<Rightarrow> Inl e | Inr v \<Rightarrow> f v)"

text \<open>\<open>v[i]\<close> on a \<open>std::vector\<close>.\<close>

definition read_at :: "'a list \<Rightarrow> nat \<Rightarrow> error + 'a" where
  "read_at xs i = (if i < length xs then Inr (xs ! i) else Inl OutOfBounds)"

text \<open>
  A \<open>for\<close> loop whose body may fail: the body is run on each index in turn and the
  first failure ends the loop.
\<close>

primrec for_each :: "'i list \<Rightarrow> ('i \<Rightarrow> 's \<Rightarrow> error + 's) \<Rightarrow> 's \<Rightarrow> error + 's" where
  "for_each [] body s = Inr s"
| "for_each (i # rest) body s = and_then (body i s) (for_each rest body)"

text \<open>
  The values of \<open>v\<close> in \<open>for(std::uint32_t v = a; v < b; v++)\<close>. The increment
  never wraps, since \<open>v < b\<close> holds before it.
\<close>

definition range32 :: "u32 \<Rightarrow> u32 \<Rightarrow> u32 list" where
  "range32 a b = map word_of_nat [unat a..<unat b]"

section \<open>Font resource and images\<close>

text \<open>
  The fields of \<open>struct Font\<close> and \<open>struct FontCharacter\<close> (main.cpp:95-123) that
  hold 16-bit metrics, as they are read from the file: big-endian, so the code passes
  each through \<open>swap_endian\<close> before use. \<open>struct Image\<close> (main.cpp:125-130)
  with \<open>T = Monochrome\<close>; its field \<open>text\<close> is \<open>text'\<close> here.
\<close>

record Font =
  ascending_height :: i16
  descending_height :: i16
  leading_height :: i16
  leading_width :: i16

record FontCharacter =
  character :: i16
  character_width :: i16
  bitmap_width :: i16
  bitmap_height :: i16
  bitmap_origin_x :: i16
  bitmap_origin_y :: i16
  hardware_character_index :: i16
  pixels_offset :: u32

record MonochromeImage =
  width :: u32
  height :: u32
  pixels :: "Monochrome list"
  text' :: "u8 list"

text \<open>\<open>swap_endian\<close> (main.cpp:86-93) reverses the bytes of its argument.\<close>

definition swap_endian16 :: "i16 \<Rightarrow> i16" where
  "swap_endian16 v = push_bit 8 v OR drop_bit 8 v"

definition swap_endian32 :: "u32 \<Rightarrow> u32" where
  "swap_endian32 v =
     push_bit 24 v OR push_bit 8 (v AND 0xFF00) OR (drop_bit 8 v AND 0xFF00) OR drop_bit 24 v"

text \<open>
  \<open>draw_text\<close> receives a \<open>const char *\<close> and walks it up to the first zero byte.
\<close>

definition c_str :: "u8 list \<Rightarrow> u8 list" where
  "c_str text = takeWhile (\<lambda>c. c \<noteq> 0) text"

section \<open>Text rasterizer\<close>

text \<open>
  The lambda \<open>set_pixel\<close> (main.cpp:161-166): a destination outside the image is
  skipped; inside, the intensity is stored as \<open>value * 3 / 4\<close>, computed on
  \<open>std::uint32_t\<close> and cast back to \<open>std::uint8_t\<close>.
\<close>

definition set_pixel :: "MonochromeImage \<Rightarrow> u32 \<Rightarrow> u32 \<Rightarrow> Monochrome \<Rightarrow> error + MonochromeImage" where
  "set_pixel drawn_text x y pixel =
     (if width drawn_text > x \<and> height drawn_text > y then
        (let i = unat (x + y * width drawn_text) in
         if i < length (pixels drawn_text)
         then Inr (drawn_text\<lparr>pixels := (pixels drawn_text)[i := ucast ((ucast pixel :: u32) * 3 div 4)]\<rparr>)
         else Inl OutOfBounds)
      else Inr drawn_text)"

text \<open>
  The body of the drawing loop (main.cpp:152-175) for one character; the state is
  the image drawn so far and \<open>x_cursor\<close>. \<open>bitmap_y\<close> is an \<open>int\<close>; added to
  the unsigned \<open>y\<close> it wraps. The characters table is a vector of exactly 256
  entries (main.cpp:236) indexed by a \<open>std::uint8_t\<close>, hence a total function.
\<close>

definition draw_character ::
  "Monochrome list \<Rightarrow> Font \<Rightarrow> FontCharacter \<Rightarrow> MonochromeImage \<times> u32 \<Rightarrow> error + MonochromeImage \<times> u32" where
  "draw_character monochrome_pixels font c state =
     (let drawn_text = fst state; x_cursor = snd state;
          bitmap_width = swap_endian16 (bitmap_width c);
          bitmap_height = swap_endian16 (bitmap_height c);
          bitmap_y = sint (swap_endian16 (ascending_height font)) - sint (swap_endian16 (bitmap_origin_y c))
      in and_then
           (if 0 < sint bitmap_width \<and> 0 < sint bitmap_height then
              for_each (range32 0 (scast bitmap_height)) (\<lambda>y.
                for_each (range32 0 (scast bitmap_width)) (\<lambda>x drawn.
                  and_then (read_at monochrome_pixels
                              (unat (swap_endian32 (pixels_offset c)) + unat (x + y * scast bitmap_width)))
                    (set_pixel drawn (x_cursor + x) (y + word_of_int bitmap_y))))
                drawn_text
            else Inr drawn_text)
           (\<lambda>drawn. Inr (drawn, x_cursor + scast (swap_endian16 (character_width c)))))"

text \<open>
  \<open>draw_text\<close> (main.cpp:134-178): height and width are computed first, the pixel
  vector is filled with \<open>height * width\<close> zero intensities (a 32-bit product), then
  the characters are drawn left to right.
\<close>

definition draw_text ::
  "u8 list \<Rightarrow> Monochrome list \<Rightarrow> (u8 \<Rightarrow> FontCharacter) \<Rightarrow> Font \<Rightarrow> error + MonochromeImage" where
  "draw_text text monochrome_pixels characters font =
     (let characters_to_draw = map characters (c_str text);
          h = word_of_int (sint (swap_endian16 (ascending_height font))
                           + sint (swap_endian16 (descending_height font)));
          w = fold (\<lambda>c w. w + scast (swap_endian16 (character_width c))) characters_to_draw 0;
          drawn_text = \<lparr>width = w, height = h, pixels = replicate (unat (h * w)) 0, text' = c_str text\<rparr>
      in and_then (for_each characters_to_draw (draw_character monochrome_pixels font) (drawn_text, 0))
           (\<lambda>state. Inr (fst state)))"

section \<open>Template matcher\<close>

text \<open>Float division; a zero divisor gives no finite value.\<close>

definition float_div :: "rat \<Rightarrow> rat \<Rightarrow> error + rat" where
  "float_div a b = (if b = 0 then Inl NotFinite else Inr (f32 (a / b)))"

text \<open>The test \<open>difference < 0x10\<close> of main.cpp:268-273 on one pair of pixels.\<close>

definition pixel_hit :: "Monochrome \<Rightarrow> Monochrome \<Rightarrow> bool" where
  "pixel_hit text_pixel image_pixel =
     (let difference = int (unat text_pixel) - int (unat image_pixel);
          difference = (if difference < 0 then difference * (- 1) else difference)
      in difference < 0x10)"

text \<open>
  The lambda \<open>match\<close> (main.cpp:255-278). \<open>monochrome_version\<close> and \<open>width\<close>
  are its captures; the captured width is \<open>image_width\<close> here. All index arithmetic
  is on \<open>std::uint32_t\<close>.
\<close>

definition match :: "Monochrome list \<Rightarrow> u32 \<Rightarrow> MonochromeImage \<Rightarrow> u32 \<Rightarrow> u32 \<Rightarrow> error + rat" where
  "match monochrome_version image_width text x y =
     (if x + width text > image_width \<or> y + height text > 480 \<or> width text = 0 \<or> height text = 0
      then Inr 0
      else and_then
        (for_each (range32 0 (height text)) (\<lambda>ty.
           for_each (range32 0 (width text)) (\<lambda>tx hits.
             and_then (read_at (pixels text) (unat (tx + ty * width text))) (\<lambda>text_pixel.
             and_then (read_at monochrome_version (unat (tx + x + (ty + y) * image_width))) (\<lambda>image_pixel.
               Inr (hits + (if pixel_hit text_pixel image_pixel then 1 else 0))))))
           (0 :: u32))
        (\<lambda>hits. float_div (u32_to_float hits) (u32_to_float (height text * width text))))"

section \<open>Layout calibrator\<close>

text \<open>
  \<open>line_height_search\<close> (main.cpp:305) is the ascending height alone, a signed
  16-bit value.
\<close>

definition line_height_search :: "Font \<Rightarrow> i16" where
  "line_height_search font = swap_endian16 (ascending_height font)"

text \<open>The literal \<open>0.85F\<close>: the float nearest to 85/100.\<close>

definition float_0_85 :: rat where
  "float_0_85 = f32 (85 / 100)"

text \<open>
  The lambda \<open>find_header_text\<close> (main.cpp:307-328). Its captures are parameters:
  the pool \<open>pixels\<close> (here \<open>font_pixels\<close>), \<open>characters\<close>, \<open>font\<close>, and through
  \<open>match\<close> the screenshot \<open>monochrome_version\<close> and its \<open>width\<close>. The loop state
  is \<open>found_percent\<close> and the pair \<open>(found_x, found_y)\<close>; the pair is \<open>None\<close>
  while the two references still hold what the caller left in them, which is nothing:
  the caller's variables are uninitialised (main.cpp:299-303). On success the found
  pair is returned.
\<close>

definition find_header_text ::
  "Monochrome list \<Rightarrow> (u8 \<Rightarrow> FontCharacter) \<Rightarrow> Font \<Rightarrow> Monochrome list \<Rightarrow> u32
   \<Rightarrow> u8 list \<Rightarrow> u32 \<Rightarrow> u32 \<Rightarrow> error + u32 \<times> u32" where
  "find_header_text font_pixels characters font monochrome_version image_width text min_x min_y =
     and_then (draw_text text font_pixels characters font) (\<lambda>drawn.
       let text_drawn = drawn\<lparr>pixels := filter_monochrome (pixels drawn)\<rparr> in
       and_then
         (for_each (range32 min_y (min_y + scast (line_height_search font))) (\<lambda>y.
            for_each (range32 min_x image_width) (\<lambda>x found.
              and_then (match monochrome_version image_width text_drawn x y) (\<lambda>match_percent.
                Inr (if match_percent > fst found then (match_percent, Some (x, y)) else found))))
            (0, None))
         (\<lambda>found.
            if fst found < float_0_85 then Inl (ExitFailure (c_str text) (snd found) (fst found))
            else case snd found of None \<Rightarrow> Inl Uninitialized | Some p \<Rightarrow> Inr p))"

text \<open>The five header strings, as bytes.\<close>

definition str_Name :: "u8 list" where
  "str_Name = [0x4E, 0x61, 0x6D, 0x65]"

definition str_Score :: "u8 list" where
  "str_Score = [0x53, 0x63, 0x6F, 0x72, 0x65]"

definition str_Kills :: "u8 list" where
  "str_Kills = [0x4B, 0x69, 0x6C, 0x6C, 0x73]"

definition str_Assists :: "u8 list" where
  "str_Assists = [0x41, 0x73, 0x73, 0x69, 0x73, 0x74, 0x73]"

definition str_Deaths :: "u8 list" where
  "str_Deaths = [0x44, 0x65, 0x61, 0x74, 0x68, 0x73]"

text \<open>The ten coordinates the five calls of main.cpp:331-335 assign.\<close>

record Anchors =
  name_x :: u32
  name_y :: u32
  score_x :: u32
  score_y :: u32
  kills_x :: u32
  kills_y :: u32
  assists_x :: u32
  assists_y :: u32
  deaths_x :: u32
  deaths_y :: u32

text \<open>
  The five calls (main.cpp:331-335). Every call after the first passes the previous
  header's \<open>x\<close> as \<open>min_x\<close> and \<open>name_y - 10\<close> as \<open>min_y\<close>.
\<close>

definition find_headers ::
  "Monochrome list \<Rightarrow> (u8 \<Rightarrow> FontCharacter) \<Rightarrow> Font \<Rightarrow> Monochrome list \<Rightarrow> u32
   \<Rightarrow> error + Anchors" where
  "find_headers font_pixels characters font monochrome_version image_width =
     (let find = find_header_text font_pixels characters font monochrome_version image_width in
      and_then (find str_Name 120 120) (\<lambda>name.
      and_then (find str_Score (fst name) (snd name - 10)) (\<lambda>score.
      and_then (find str_Kills (fst score) (snd name - 10)) (\<lambda>kills.
      and_then (find str_Assists (fst kills) (snd name - 10)) (\<lambda>assists.
      and_then (find str_Deaths (fst assists) (snd name - 10)) (\<lambda>deaths.
        Inr \<lparr>name_x = fst name, name_y = snd name, score_x = fst score, score_y = snd score,
             kills_x = fst kills, kills_y = snd kills, assists_x = fst assists,
             assists_y = snd assists, deaths_x = fst deaths, deaths_y = snd deaths\<rparr>))))))"

section \<open>Row segmenter\<close>

text \<open>
  A scan that stops at the first pixel with ink: the indices are read in order, and a
  nonzero intensity ends the scan with \<open>True\<close>.
\<close>

primrec first_ink :: "Monochrome list \<Rightarrow> nat list \<Rightarrow> error + bool" where
  "first_ink monochrome_version [] = Inr False"
| "first_ink monochrome_version (i # rest) =
     and_then (read_at monochrome_version i)
       (\<lambda>m. if m \<noteq> 0 then Inr True else first_ink monochrome_version rest)"

text \<open>The indices \<open>x + y * width\<close> for \<open>x\<close> from \<open>deaths_x\<close> up to \<open>width\<close>; the captured
  \<open>deaths_x\<close> is the parameter \<open>deaths_x'\<close>.\<close>

definition row_span :: "u32 \<Rightarrow> u32 \<Rightarrow> u32 \<Rightarrow> nat list" where
  "row_span image_width deaths_x' y = map (\<lambda>x. unat (x + y * image_width)) (range32 deaths_x' image_width)"

text \<open>
  The \<open>while\<close> loop of \<open>skip_to_next_line\<close> (main.cpp:343-357): as long as
  \<open>y_cursor < 480\<close> and the row has ink in the span, the cursor moves down by one.
\<close>

function skip_loop :: "Monochrome list \<Rightarrow> u32 \<Rightarrow> u32 \<Rightarrow> u32 \<Rightarrow> error + u32" where
  "skip_loop monochrome_version image_width deaths_x' y_cursor =
     (if y_cursor < 480 then
        (case first_ink monochrome_version (row_span image_width deaths_x' y_cursor) of
           Inl e \<Rightarrow> Inl e
         | Inr ink \<Rightarrow>
             if ink then skip_loop monochrome_version image_width deaths_x' (y_cursor + 1)
             else Inr y_cursor)
      else Inr y_cursor)"
  by pat_completeness auto
termination
proof (relation "measure (\<lambda>(monochrome_version, image_width, deaths_x', y_cursor). 480 - unat y_cursor)")
  show "wf (measure (\<lambda>(monochrome_version, image_width, deaths_x', y_cursor :: u32). 480 - unat y_cursor))"
    by simp
next
  fix monochrome_version :: "Monochrome list" and image_width deaths_x' y_cursor :: u32
  assume "y_cursor < 480"
  then have y: "unat y_cursor < 480"
    by (simp add: word_less_nat_alt)
  then have "unat (y_cursor + 1) = unat y_cursor + 1"
    using unat_add_lem [of y_cursor 1] by simp
  then show "((monochrome_version, image_width, deaths_x', y_cursor + 1),
              (monochrome_version, image_width, deaths_x', y_cursor))
             \<in> measure (\<lambda>(monochrome_version, image_width, deaths_x', y_cursor). 480 - unat y_cursor)"
    using y by simp
qed

declare skip_loop.simps [simp del]

text \<open>
  The lambda \<open>skip_to_next_line\<close> (main.cpp:340-358): \<open>y_cursor\<close> first moves by
  \<open>line_height_search / 2\<close>, a division of a signed value that truncates towards
  zero, then the loop runs. The new \<open>y_cursor\<close> is returned.
\<close>

definition skip_to_next_line :: "Monochrome list \<Rightarrow> u32 \<Rightarrow> u32 \<Rightarrow> Font \<Rightarrow> u32 \<Rightarrow> error + u32" where
  "skip_to_next_line monochrome_version image_width deaths_x' font y_cursor =
     skip_loop monochrome_version image_width deaths_x'
       (y_cursor + word_of_int (sint (line_height_search font) sdiv 2))"

text \<open>
  The presence check (main.cpp:395-400): rows \<open>y_cursor\<close> up to
  \<open>y_cursor + line_height_search\<close>, each over the span, until ink is found.
\<close>

primrec found_in_rows :: "Monochrome list \<Rightarrow> u32 \<Rightarrow> u32 \<Rightarrow> u32 list \<Rightarrow> error + bool" where
  "found_in_rows monochrome_version image_width deaths_x' [] = Inr False"
| "found_in_rows monochrome_version image_width deaths_x' (y # rest) =
     and_then (first_ink monochrome_version (row_span image_width deaths_x' y))
       (\<lambda>found. if found then Inr True
                 else found_in_rows monochrome_version image_width deaths_x' rest)"

definition found_something :: "Monochrome list \<Rightarrow> u32 \<Rightarrow> u32 \<Rightarrow> Font \<Rightarrow> u32 \<Rightarrow> error + bool" where
  "found_something monochrome_version image_width deaths_x' font y_cursor =
     found_in_rows monochrome_version image_width deaths_x'
       (range32 y_cursor (y_cursor + scast (line_height_search font)))"

text \<open>
  The loop over the rows (main.cpp:393-556). \<open>decode_row\<close> stands for the body
  between the presence check and the call of \<open>skip_to_next_line\<close> (team colour, name
  and the four numbers); it receives \<open>y_cursor\<close> by value and cannot change it, and
  its state \<open>rows\<close> holds the players decoded so far and the names still unused. The
  first argument bounds the number of iterations.
\<close>

fun rows_loop ::
  "nat \<Rightarrow> (u32 \<Rightarrow> 's \<Rightarrow> error + 's) \<Rightarrow> Monochrome list \<Rightarrow> u32 \<Rightarrow> u32 \<Rightarrow> Font \<Rightarrow> u32 \<Rightarrow> 's
   \<Rightarrow> error + 's" where
  "rows_loop 0 decode_row monochrome_version image_width deaths_x' font y_cursor rows =
     Inl OutOfFuel"
| "rows_loop (Suc fuel) decode_row monochrome_version image_width deaths_x' font y_cursor rows =
     and_then (found_something monochrome_version image_width deaths_x' font y_cursor) (\<lambda>found.
       if \<not> found then Inr rows
       else and_then (decode_row y_cursor rows) (\<lambda>rows'.
            and_then (skip_to_next_line monochrome_version image_width deaths_x' font y_cursor)
              (\<lambda>y_cursor'.
                 rows_loop fuel decode_row monochrome_version image_width deaths_x' font
                   y_cursor' rows')))"

text \<open>
  The run from calibration to the end of the row loop (main.cpp:331-556): headers,
  \<open>y_cursor = name_y\<close>, one \<open>skip_to_next_line\<close>, then the rows.
\<close>

definition read_scoreboard ::
  "nat \<Rightarrow> (Anchors \<Rightarrow> u32 \<Rightarrow> 's \<Rightarrow> error + 's) \<Rightarrow> Monochrome list \<Rightarrow> (u8 \<Rightarrow> FontCharacter)
   \<Rightarrow> Font \<Rightarrow> Monochrome list \<Rightarrow> u32 \<Rightarrow> 's \<Rightarrow> error + 's" where
  "read_scoreboard fuel decode_row font_pixels characters font monochrome_version image_width rows =
     and_then (find_headers font_pixels characters font monochrome_version image_width) (\<lambda>anchors.
     and_then (skip_to_next_line monochrome_version image_width (deaths_x anchors) font
                 (name_y anchors)) (\<lambda>y_cursor.
       rows_loop fuel (decode_row anchors) monochrome_version image_width (deaths_x anchors) font
         y_cursor rows))"

section \<open>Cell decoder\<close>

text \<open>
  The values of \<open>my\<close> and of \<open>mx\<close> in the two loops
  \<open>for(std::int32_t my = -3; my < 4; my++)\<close> (main.cpp:433-434). They are only used in
  sums with a \<open>std::uint32_t\<close>, which converts them to that type, so they are 32-bit
  words here.
\<close>

definition offsets :: "u32 list" where
  "offsets = [- 3, - 2, - 1, 0, 1, 2, 3]"

text \<open>
  The test \<open>x + c.width * 0.5F > max_x\<close> (main.cpp:437): the three integers are
  converted to \<open>float\<close>, and the product and the sum are float operations.
\<close>

definition overshoots :: "u32 \<Rightarrow> MonochromeImage \<Rightarrow> u32 \<Rightarrow> bool" where
  "overshoots x c max_x \<longleftrightarrow>
     f32 (u32_to_float x + f32 (u32_to_float (width c) * (1 / 2))) > u32_to_float max_x"

text \<open>\<open>c.text[0]\<close>; on an empty \<open>std::string\<close> this is the terminating zero.\<close>

definition first_char :: "MonochromeImage \<Rightarrow> u8" where
  "first_char c = (case text' c of [] \<Rightarrow> 0 | ch # rest \<Rightarrow> ch)"

text \<open>
  The three nested loops of one iteration (main.cpp:427-450). The state is
  \<open>best_character_percent\<close> and the triple \<open>(best_character, best_length, best_x)\<close>;
  the three are assigned together, and the triple is \<open>None\<close> while \<open>best_length\<close>
  has no value.
\<close>

definition best_candidate ::
  "Monochrome list \<Rightarrow> u32 \<Rightarrow> MonochromeImage list \<Rightarrow> u32 \<Rightarrow> u32 \<Rightarrow> u32
   \<Rightarrow> error + rat \<times> (u8 \<times> u32 \<times> u32) option" where
  "best_candidate monochrome_version image_width table x max_x search_y =
     for_each offsets (\<lambda>my.
       for_each offsets (\<lambda>mx.
         for_each table (\<lambda>c best.
           if overshoots x c max_x then Inr best
           else and_then (match monochrome_version image_width c (x + mx) (search_y + my)) (\<lambda>test.
             Inr (if test > fst best then (test, Some (first_char c, width c, mx)) else best)))))
       (0, None)"

text \<open>
  The \<open>while\<close> loop of \<open>string_at\<close> (main.cpp:426-457), started at the cursor
  \<open>x\<close> with the string built so far: it ends with \<open>final_string\<close> when the cursor
  has reached \<open>max_x\<close> or \<open>best_length\<close> has no value, and otherwise goes on with
  \<open>x + best_length\<close> and one more character. The first argument bounds the number of
  iterations.
\<close>

fun string_at_loop ::
  "nat \<Rightarrow> Monochrome list \<Rightarrow> u32 \<Rightarrow> MonochromeImage list \<Rightarrow> u32 \<Rightarrow> u32 \<Rightarrow> u32 \<Rightarrow> u8 list
   \<Rightarrow> error + u8 list" where
  "string_at_loop 0 monochrome_version image_width table max_x search_y x final_string =
     Inl OutOfFuel"
| "string_at_loop (Suc fuel) monochrome_version image_width table max_x search_y x final_string =
     (if x < max_x then
        and_then (best_candidate monochrome_version image_width table x max_x search_y) (\<lambda>best.
          case snd best of
            None \<Rightarrow> Inr final_string
          | Some (best_character, best_length, best_x) \<Rightarrow>
              string_at_loop fuel monochrome_version image_width table max_x search_y
                (x + best_length) (final_string @ [best_character]))
      else Inr final_string)"

section \<open>Ranking engine\<close>

text \<open>
  \<open>struct PlayerStats\<close> (main.cpp:362-369). The four statistics are
  \<open>std::int8_t\<close>; the comparisons below read them as signed values.
\<close>

record PlayerStats =
  red :: bool
  name :: "u8 list"
  score :: i8
  kills :: i8
  assists :: i8
  deaths :: i8

text \<open>
  The body of the inner loop of main.cpp:571-586 after the address test: the four
  \<open>CHECK_STAT\<close> expansions followed by the final \<open>players_below++\<close>.
  \<open>CHECK_STAT(stat, good, bad)\<close> leaves the iteration without counting when
  \<open>player.stat good player_test.stat\<close>, counts and leaves when
  \<open>player.stat bad player_test.stat\<close>, and falls through otherwise. The result
  says whether \<open>players_below\<close> is incremented for this pair.
\<close>

definition counts_against :: "PlayerStats \<Rightarrow> PlayerStats \<Rightarrow> bool" where
  "counts_against player player_test =
     (if sint (score player) > sint (score player_test) then False
      else if sint (score player) < sint (score player_test) then True
      else if sint (kills player) > sint (kills player_test) then False
      else if sint (kills player) < sint (kills player_test) then True
      else if sint (deaths player) < sint (deaths player_test) then False
      else if sint (deaths player) > sint (deaths player_test) then True
      else if sint (assists player) > sint (assists player_test) then False
      else if sint (assists player) < sint (assists player_test) then True
      else True)"

text \<open>
  The inner loop over \<open>player_test\<close>: \<open>i\<close> is the position of \<open>player\<close> in the
  vector and \<open>j\<close> the position of \<open>player_test\<close>, so \<open>j = i\<close> is the test
  \<open>&player == &player_test\<close>.
\<close>

primrec players_below_loop ::
  "PlayerStats \<Rightarrow> nat \<Rightarrow> nat \<Rightarrow> PlayerStats list \<Rightarrow> nat \<Rightarrow> nat" where
  "players_below_loop player i j [] players_below = players_below"
| "players_below_loop player i j (player_test # rest) players_below =
     players_below_loop player i (Suc j) rest
       (if j = i then players_below
        else if counts_against player player_test then players_below + 1
        else players_below)"

text \<open>The outer loop (main.cpp:568-589): one \<open>places.push_back(players_below + 1)\<close> per player.\<close>

definition places :: "PlayerStats list \<Rightarrow> nat list" where
  "places players =
     map (\<lambda>i. players_below_loop (players ! i) i 0 players 0 + 1) [0..<length players]"

subsection \<open>The comparison in words\<close>

text \<open>
  \<open>outranks a b\<close>: row \<open>a\<close> is strictly better than row \<open>b\<close> when score (higher
  first), then kills (higher first), then deaths (fewer first), then assists (higher
  first) are compared in this order. \<open>fully_tied\<close>: all four statistics agree.
\<close>

definition outranks :: "PlayerStats \<Rightarrow> PlayerStats \<Rightarrow> bool" where
  "outranks a b =
     (sint (score a) > sint (score b) \<or>
      (sint (score a) = sint (score b) \<and>
       (sint (kills a) > sint (kills b) \<or>
        (sint (kills a) = sint (kills b) \<and>
         (sint (deaths a) < sint (deaths b) \<or>
          (sint (deaths a) = sint (deaths b) \<and> sint (assists a) > sint (assists b)))))))"

definition fully_tied :: "PlayerStats \<Rightarrow> PlayerStats \<Rightarrow> bool" where
  "fully_tied a b =
     (score a = score b \<and> kills a = kills b \<and> deaths a = deaths b \<and> assists a = assists b)"

text \<open>
  The placement as the specification words it: one plus the number of other rows
  that rank below row \<open>i\<close> (rows that row \<open>i\<close> outranks), a fully tied row being
  counted as well.
\<close>

definition claimed_place :: "PlayerStats list \<Rightarrow> nat \<Rightarrow> nat" where
  "claimed_place players i =
     1 + length (filter (\<lambda>j. j \<noteq> i \<and>
                    (outranks (players ! i) (players ! j) \<or> fully_tied (players ! i) (players ! j)))
                  [0..<length players])"

text \<open>Rows used as concrete inputs.\<close>

definition stats :: "int \<Rightarrow> int \<Rightarrow> int \<Rightarrow> int \<Rightarrow> PlayerStats" where
  "stats s k a d =
     \<lparr>red = False, name = [], score = word_of_int s, kills = word_of_int k,
      assists = word_of_int a, deaths = word_of_int d\<rparr>"

definition sample_rows :: "PlayerStats list" where
  "sample_rows = [stats 10 0 0 0, stats 10 0 0 0, stats 3 1 1 1, stats 3 1 1 0, stats (-1) 0 0 0]"

section \<open>Notions used to state the properties of the matcher\<close>

text \<open>
  The template coordinates \<open>(tx, ty)\<close> in the order the two loops of \<open>match\<close>
  visit them.
\<close>

definition rect :: "u32 \<Rightarrow> u32 \<Rightarrow> (u32 \<times> u32) list" where
  "rect w h = concat (map (\<lambda>y. map (\<lambda>x. (x, y)) (range32 0 w)) (range32 0 h))"

text \<open>
  The number of template pixels whose intensity differs from the screenshot pixel it
  is laid over by less than \<open>0x10\<close> in absolute value; both pixels are addressed as
  the code addresses them.
\<close>

definition hit_count :: "Monochrome list \<Rightarrow> u32 \<Rightarrow> MonochromeImage \<Rightarrow> u32 \<Rightarrow> u32 \<Rightarrow> nat" where
  "hit_count monochrome_version image_width text x y =
     length (filter
       (\<lambda>p. \<bar>int (unat (pixels text ! unat (fst p + snd p * width text)))
              - int (unat (monochrome_version ! unat (fst p + x + (snd p + y) * image_width)))\<bar> < 0x10)
       (rect (width text) (height text)))"

text \<open>Every pixel access of the two loops stays inside its vector.\<close>

definition reads_in_bounds :: "Monochrome list \<Rightarrow> u32 \<Rightarrow> MonochromeImage \<Rightarrow> u32 \<Rightarrow> u32 \<Rightarrow> bool" where
  "reads_in_bounds monochrome_version image_width text x y =
     list_all (\<lambda>p. unat (fst p + snd p * width text) < length (pixels text)
                 \<and> unat (fst p + x + (snd p + y) * image_width) < length monochrome_version)
       (rect (width text) (height text))"

section \<open>Notions used to state the properties of the rasterizer\<close>

text \<open>A value-initialised \<open>FontCharacter\<close>: the slot of a character code the font does not define (main.cpp:236).\<close>

definition no_glyph :: FontCharacter where
  "no_glyph = \<lparr>character = 0, character_width = 0, bitmap_width = 0, bitmap_height = 0,
      bitmap_origin_x = 0, bitmap_origin_y = 0, hardware_character_index = 0, pixels_offset = 0\<rparr>"

text \<open>An image whose pixel vector holds exactly \<open>width * height\<close> intensities, the product fitting in 32 bits.\<close>

definition wf_image :: "MonochromeImage \<Rightarrow> bool" where
  "wf_image img \<longleftrightarrow>
     length (pixels img) = unat (width img) * unat (height img)
     \<and> unat (width img) * unat (height img) < 2 ^ 32"

text \<open>The intensity \<open>set_pixel\<close> stores for a source intensity.\<close>

definition attenuate :: "Monochrome \<Rightarrow> Monochrome" where
  "attenuate pixel = ucast ((ucast pixel :: u32) * 3 div 4)"

text \<open>The position of pixel \<open>(X, Y)\<close> in the row-major pixel vector.\<close>

definition pixel_index :: "MonochromeImage \<Rightarrow> u32 \<Rightarrow> u32 \<Rightarrow> nat" where
  "pixel_index img X Y = unat X + unat Y * unat (width img)"

text \<open>The test \<open>bitmap_width > 0 && bitmap_height > 0\<close> of main.cpp:158.\<close>

definition glyph_drawn :: "FontCharacter \<Rightarrow> bool" where
  "glyph_drawn c \<longleftrightarrow>
     0 < sint (swap_endian16 (bitmap_width c)) \<and> 0 < sint (swap_endian16 (bitmap_height c))"

text \<open>The bitmap rectangle of a drawn character lies inside the pixel pool.\<close>

definition glyph_in_pool :: "Monochrome list \<Rightarrow> FontCharacter \<Rightarrow> bool" where
  "glyph_in_pool monochrome_pixels c \<longleftrightarrow>
     (glyph_drawn c \<longrightarrow>
        unat (swap_endian32 (pixels_offset c))
        + nat (sint (swap_endian16 (bitmap_width c))) * nat (sint (swap_endian16 (bitmap_height c)))
        \<le> length monochrome_pixels)"

text \<open>Two images of the same dimensions, label and pixel count.\<close>

definition same_shape :: "MonochromeImage \<Rightarrow> MonochromeImage \<Rightarrow> bool" where
  "same_shape a b \<longleftrightarrow>
     width a = width b \<and> height a = height b \<and> text' a = text' b
     \<and> length (pixels a) = length (pixels b)"

text \<open>The advance width of a character, as it is added to the unsigned cursor.\<close>

definition advance :: "FontCharacter \<Rightarrow> u32" where
  "advance c = scast (swap_endian16 (character_width c))"

text \<open>The image \<open>draw_text\<close> allocates before it draws: width the 32-bit sum of the advance widths.\<close>

definition blank_canvas :: "u8 list \<Rightarrow> (u8 \<Rightarrow> FontCharacter) \<Rightarrow> Font \<Rightarrow> MonochromeImage" where
  "blank_canvas text characters font =
     (let h = word_of_int (sint (swap_endian16 (ascending_height font))
                           + sint (swap_endian16 (descending_height font)));
          w = sum_list (map (\<lambda>c. advance (characters c)) (c_str text))
      in \<lparr>width = w, height = h, pixels = replicate (unat (h * w)) 0, text' = c_str text\<rparr>)"

text \<open>Bitmap width, bitmap height, top row and pool offset of a character, as unsigned values.\<close>

definition glyph_width :: "FontCharacter \<Rightarrow> u32" where
  "glyph_width c = scast (swap_endian16 (bitmap_width c))"

definition glyph_height :: "FontCharacter \<Rightarrow> u32" where
  "glyph_height c = scast (swap_endian16 (bitmap_height c))"

definition glyph_top :: "Font \<Rightarrow> FontCharacter \<Rightarrow> u32" where
  "glyph_top font c =
     word_of_int (sint (swap_endian16 (ascending_height font))
                  - sint (swap_endian16 (bitmap_origin_y c)))"

definition glyph_offset :: "FontCharacter \<Rightarrow> nat" where
  "glyph_offset c = unat (swap_endian32 (pixels_offset c))"

text \<open>
  The drawing of a whole string, in the words of the specification. A character
  placed with its cursor at \<open>x_cursor\<close> covers the position \<open>(X, Y)\<close> when its
  bitmap has positive width and height and \<open>(X, Y)\<close> is
  \<open>(x_cursor + x, (ascending_height - bitmap_origin_y) + y)\<close> for a bitmap pixel
  \<open>(x, y)\<close>; \<open>glyph_source\<close> is the pool index of that bitmap pixel.
\<close>

definition glyph_covers :: "Font \<Rightarrow> FontCharacter \<Rightarrow> u32 \<Rightarrow> u32 \<Rightarrow> u32 \<Rightarrow> bool" where
  "glyph_covers font c x_cursor X Y \<longleftrightarrow>
     glyph_drawn c \<and> X - x_cursor < glyph_width c \<and> Y - glyph_top font c < glyph_height c"

definition glyph_source :: "Font \<Rightarrow> FontCharacter \<Rightarrow> u32 \<Rightarrow> u32 \<Rightarrow> u32 \<Rightarrow> nat" where
  "glyph_source font c x_cursor X Y =
     glyph_offset c + unat (X - x_cursor) + unat (Y - glyph_top font c) * unat (glyph_width c)"

text \<open>
  The intensity at \<open>(X, Y)\<close> after the characters of a list have been drawn in
  sequence, starting with the cursor at \<open>x_cursor\<close> on a pixel of intensity \<open>v\<close>:
  each character that covers the position replaces the intensity by three quarters of
  its bitmap pixel, and the cursor moves on by the advance width of every character,
  drawn or not.
\<close>

primrec pixel_after ::
  "Monochrome list \<Rightarrow> Font \<Rightarrow> FontCharacter list \<Rightarrow> u32 \<Rightarrow> Monochrome \<Rightarrow> u32 \<Rightarrow> u32 \<Rightarrow> Monochrome" where
  "pixel_after monochrome_pixels font [] x_cursor v X Y = v"
| "pixel_after monochrome_pixels font (c # rest) x_cursor v X Y =
     pixel_after monochrome_pixels font rest (x_cursor + advance c)
       (if glyph_covers font c x_cursor X Y
        then attenuate (monochrome_pixels ! glyph_source font c x_cursor X Y)
        else v)
       X Y"

section \<open>Notions used to state the properties of the calibrator\<close>

text \<open>
  The positions \<open>(x, y)\<close> in the order the two loops of \<open>find_header_text\<close> visit
  them: rows from \<open>min_y\<close> up to \<open>min_y + line_height_search\<close>, and in every row
  the columns from \<open>min_x\<close> up to the image width.
\<close>

definition scan_window :: "u32 \<Rightarrow> Font \<Rightarrow> u32 \<Rightarrow> u32 \<Rightarrow> (u32 \<times> u32) list" where
  "scan_window image_width font min_x min_y =
     concat (map (\<lambda>y. map (\<lambda>x. (x, y)) (range32 min_x image_width))
               (range32 min_y (min_y + scast (line_height_search font))))"

text \<open>The template after \<open>filter_monochrome\<close> has run on its pixels (main.cpp:309).\<close>

definition thresholded :: "MonochromeImage \<Rightarrow> MonochromeImage" where
  "thresholded drawn = drawn\<lparr>pixels := filter_monochrome (pixels drawn)\<rparr>"

text \<open>
  The five calls as the specification words them, to be compared with \<open>find_headers\<close>:
  every call after the first takes \<open>min_x\<close> from the previous header's \<open>x\<close> and
  \<open>min_y\<close> from the previous header's \<open>y\<close> minus 10.
\<close>

definition find_headers_as_claimed ::
  "Monochrome list \<Rightarrow> (u8 \<Rightarrow> FontCharacter) \<Rightarrow> Font \<Rightarrow> Monochrome list \<Rightarrow> u32
   \<Rightarrow> error + Anchors" where
  "find_headers_as_claimed font_pixels characters font monochrome_version image_width =
     (let find = find_header_text font_pixels characters font monochrome_version image_width in
      and_then (find str_Name 120 120) (\<lambda>name.
      and_then (find str_Score (fst name) (snd name - 10)) (\<lambda>score.
      and_then (find str_Kills (fst score) (snd score - 10)) (\<lambda>kills.
      and_then (find str_Assists (fst kills) (snd kills - 10)) (\<lambda>assists.
      and_then (find str_Deaths (fst assists) (snd assists - 10)) (\<lambda>deaths.
        Inr \<lparr>name_x = fst name, name_y = snd name, score_x = fst score, score_y = snd score,
             kills_x = fst kills, kills_y = snd kills, assists_x = fst assists,
             assists_y = snd assists, deaths_x = fst deaths, deaths_y = snd deaths\<rparr>))))))"

section \<open>Notions used to state the properties of the row segmenter\<close>

text \<open>
  Row \<open>y\<close> has ink in the span: some pixel \<open>x + y * width\<close> with \<open>x\<close> from
  \<open>deaths_x\<close> up to the width holds a nonzero intensity.
\<close>

definition row_has_ink :: "Monochrome list \<Rightarrow> u32 \<Rightarrow> u32 \<Rightarrow> u32 \<Rightarrow> bool" where
  "row_has_ink monochrome_version image_width deaths_x' y \<longleftrightarrow>
     list_ex (\<lambda>x. monochrome_version ! unat (x + y * image_width) \<noteq> 0)
       (range32 deaths_x' image_width)"

text \<open>A screenshot buffer of \<open>width * 480\<close> pixels, the product fitting in 32 bits
  (main.cpp:201-204 refuses any other height).\<close>

definition wf_screen :: "Monochrome list \<Rightarrow> u32 \<Rightarrow> bool" where
  "wf_screen monochrome_version image_width \<longleftrightarrow>
     length monochrome_version = unat image_width * 480 \<and> unat image_width * 480 < 2 ^ 32"

text \<open>
  The line height as the specification words it, the sum of the ascending and the
  descending height, and the two steps of the segmenter taken with it instead of
  \<open>line_height_search\<close>; to be compared with \<open>skip_to_next_line\<close> and
  \<open>found_something\<close>.
\<close>

definition line_height_as_claimed :: "Font \<Rightarrow> i16" where
  "line_height_as_claimed font
     = swap_endian16 (ascending_height font) + swap_endian16 (descending_height font)"

definition skip_to_next_line_as_claimed ::
  "Monochrome list \<Rightarrow> u32 \<Rightarrow> u32 \<Rightarrow> Font \<Rightarrow> u32 \<Rightarrow> error + u32" where
  "skip_to_next_line_as_claimed monochrome_version image_width deaths_x' font y_cursor =
     skip_loop monochrome_version image_width deaths_x'
       (y_cursor + word_of_int (sint (line_height_as_claimed font) sdiv 2))"

definition found_something_as_claimed ::
  "Monochrome list \<Rightarrow> u32 \<Rightarrow> u32 \<Rightarrow> Font \<Rightarrow> u32 \<Rightarrow> error + bool" where
  "found_something_as_claimed monochrome_version image_width deaths_x' font y_cursor =
     found_in_rows monochrome_version image_width deaths_x'
       (range32 y_cursor (y_cursor + scast (line_height_as_claimed font)))"

section \<open>Notions used to state the properties of the cell decoder\<close>

text \<open>
  The triples \<open>(my, mx, c)\<close> in the order the three loops visit them, and those of
  them whose candidate passes the test on its half width.
\<close>

definition trials :: "MonochromeImage list \<Rightarrow> (u32 \<times> u32 \<times> MonochromeImage) list" where
  "trials table = concat (map (\<lambda>my. concat (map (\<lambda>mx. map (\<lambda>c. (my, mx, c)) table) offsets)) offsets)"

definition tried :: "MonochromeImage list \<Rightarrow> u32 \<Rightarrow> u32 \<Rightarrow> (u32 \<times> u32 \<times> MonochromeImage) list" where
  "tried table x max_x = filter (\<lambda>(my, mx, c). \<not> overshoots x c max_x) (trials table)"

section \<open>Concrete inputs\<close>

text \<open>A screenshot buffer four pixels wide and 480 rows high, and a 2 by 2 template.\<close>

definition small_screen :: "Monochrome list" where
  "small_screen = (replicate (4 * 480) 0)[5 := 0xFF, 6 := 0xFF]"

definition small_template :: MonochromeImage where
  "small_template = \<lparr>width = 2, height = 2, pixels = [0xFF, 0xFF, 0xFF, 0], text' = []\<rparr>"

text \<open>
  A font with two glyphs. \<open>A\<close> (code 0x41) advances by 2 and has a 2 by 2 bitmap on the
  top row; \<open>B\<close> (code 0x42) advances by 3 and has a bitmap 2 wide and 3 high that
  starts one row above the image, so its first row is dropped. Metrics are stored
  big-endian, as in the font file. The images are what \<open>draw_text\<close> produces.
\<close>

definition sample_font :: Font where
  "sample_font = \<lparr>ascending_height = 0x0200, descending_height = 0x0100,
                   leading_height = 0, leading_width = 0\<rparr>"

definition glyph_A :: FontCharacter where
  "glyph_A = \<lparr>character = 0x4100, character_width = 0x0200, bitmap_width = 0x0200,
     bitmap_height = 0x0200, bitmap_origin_x = 0, bitmap_origin_y = 0x0200,
     hardware_character_index = 0, pixels_offset = 0\<rparr>"

definition glyph_B :: FontCharacter where
  "glyph_B = \<lparr>character = 0x4200, character_width = 0x0300, bitmap_width = 0x0200,
     bitmap_height = 0x0300, bitmap_origin_x = 0, bitmap_origin_y = 0x0300,
     hardware_character_index = 0, pixels_offset = 0x04000000\<rparr>"

definition sample_characters :: "u8 \<Rightarrow> FontCharacter" where
  "sample_characters = (\<lambda>_. no_glyph)(0x41 := glyph_A, 0x42 := glyph_B)"

definition sample_pool :: "Monochrome list" where
  "sample_pool = [0xFF, 0, 0xFF, 0xFF, 100, 200, 0, 0, 0xFF, 0xFF]"

definition sample_canvas :: MonochromeImage where
  "sample_canvas = \<lparr>width = 7, height = 3, pixels = replicate 21 0, text' = [0x41, 0x42, 0x41]\<rparr>"

definition image_ABA :: MonochromeImage where
  "image_ABA = \<lparr>width = 7, height = 3,
      pixels = [191, 0, 0, 0, 0, 191, 0, 191, 191, 191, 191, 0, 191, 191, 0, 0, 0, 0, 0, 0, 0],
      text' = [0x41, 0x42, 0x41]\<rparr>"

definition image_A :: MonochromeImage where
  "image_A = \<lparr>width = 2, height = 3, pixels = [191, 0, 191, 191, 0, 0], text' = [0x41]\<rparr>"

definition image_B :: MonochromeImage where
  "image_B = \<lparr>width = 3, height = 3, pixels = [0, 0, 0, 191, 191, 0, 0, 0, 0], text' = [0x42]\<rparr>"

definition image_B_on_canvas :: MonochromeImage where
  "image_B_on_canvas = sample_canvas
     \<lparr>pixels := [0, 0, 0, 0, 0, 0, 0, 0, 0, 191, 191, 0, 0, 0, 0, 0, 0, 0, 0, 0, 0]\<rparr>"

text \<open>
  A screenshot 480 rows high given by its intensity at column \<open>x\<close> and row \<open>y\<close>,
  stored row by row.
\<close>

definition render :: "(nat \<Rightarrow> nat \<Rightarrow> Monochrome) \<Rightarrow> nat \<Rightarrow> Monochrome list" where
  "render f w = map (\<lambda>i. f (i mod w) (i div w)) [0..<w * 480]"

text \<open>
  A font one pixel high. Its bitmaps are one or two pixels of full intensity; some
  characters only advance the cursor, and the characters \<open>r\<close>, \<open>s\<close> and \<open>h\<close> are
  not defined. Every glyph carries its character code, big-endian like the metrics.
\<close>

definition calib_font :: Font where
  "calib_font = \<lparr>ascending_height = 0x0100, descending_height = 0,
                   leading_height = 0, leading_width = 0\<rparr>"

definition ink_glyph :: "i16 \<Rightarrow> FontCharacter" where
  "ink_glyph code = \<lparr>character = code, character_width = 0x0100, bitmap_width = 0x0100,
     bitmap_height = 0x0100, bitmap_origin_x = 0, bitmap_origin_y = 0x0100,
     hardware_character_index = 0, pixels_offset = 0\<rparr>"

definition wide_glyph :: "i16 \<Rightarrow> FontCharacter" where
  "wide_glyph code = \<lparr>character = code, character_width = 0x0200, bitmap_width = 0x0200,
     bitmap_height = 0x0100, bitmap_origin_x = 0, bitmap_origin_y = 0x0100,
     hardware_character_index = 0, pixels_offset = 0\<rparr>"

definition space_glyph :: "i16 \<Rightarrow> FontCharacter" where
  "space_glyph code = \<lparr>character = code, character_width = 0x0100, bitmap_width = 0,
     bitmap_height = 0, bitmap_origin_x = 0, bitmap_origin_y = 0,
     hardware_character_index = 0, pixels_offset = 0\<rparr>"

definition calib_characters :: "u8 \<Rightarrow> FontCharacter" where
  "calib_characters =
     (\<lambda>_. no_glyph)(0x4E := ink_glyph 0x4E00, 0x61 := ink_glyph 0x6100,
        0x6D := space_glyph 0x6D00, 0x65 := ink_glyph 0x6500, 0x53 := ink_glyph 0x5300,
        0x63 := space_glyph 0x6300, 0x6F := space_glyph 0x6F00, 0x4B := ink_glyph 0x4B00,
        0x69 := space_glyph 0x6900, 0x6C := ink_glyph 0x6C00, 0x41 := wide_glyph 0x4100,
        0x74 := ink_glyph 0x7400, 0x44 := ink_glyph 0x4400)"

definition calib_pool :: "Monochrome list" where
  "calib_pool = [0xFF, 0xFF]"

text \<open>
  A screenshot 140 pixels wide: the header \<open>Name\<close> in row 120 from column 120, the
  other four headers in row 110, and below the header \<open>Deaths\<close> a column of ink from
  row 120 down to the last row.
\<close>

definition header_pixels :: "nat \<Rightarrow> nat \<Rightarrow> Monochrome" where
  "header_pixels x y =
     (if y = 120 \<and> x \<in> {120, 121, 123} then 0xFF
      else if y = 110 \<and> x \<in> {124, 127, 128, 130, 131, 132, 133, 135, 136, 137, 138, 139} then 0xFF
      else 0)"

definition inked_pixels :: "nat \<Rightarrow> nat \<Rightarrow> Monochrome" where
  "inked_pixels x y = (if x = 136 \<and> 120 \<le> y then 0xFF else header_pixels x y)"

definition inked_screen :: "Monochrome list" where
  "inked_screen = render inked_pixels 140"

text \<open>A screenshot of the same size without any ink.\<close>

definition blank_screen :: "Monochrome list" where
  "blank_screen = render (\<lambda>x y. 0) 140"

text \<open>
  A font with ascending height 2 and descending height 2, and a screenshot 140 pixels
  wide with ink in column 136 of the rows 120, 122 and 126.
\<close>

definition tall_font :: Font where
  "tall_font = \<lparr>ascending_height = 0x0200, descending_height = 0x0200,
                  leading_height = 0, leading_width = 0\<rparr>"

definition rows_pixels :: "nat \<Rightarrow> nat \<Rightarrow> Monochrome" where
  "rows_pixels x y = (if x = 136 \<and> y \<in> {120, 122, 126} then 0xFF else 0)"

definition rows_screen :: "Monochrome list" where
  "rows_screen = render rows_pixels 140"

text \<open>Two candidates of a table: an \<open>N\<close> four pixels wide and a \<open>D\<close> of one pixel.\<close>

definition cand_N :: MonochromeImage where
  "cand_N = \<lparr>width = 4, height = 1, pixels = [0xFF, 0xFF, 0, 0xFF], text' = [0x4E]\<rparr>"

definition cand_D :: MonochromeImage where
  "cand_D = \<lparr>width = 1, height = 1, pixels = [0xFF], text' = [0x44]\<rparr>"

section \<open>Properties of the threshold filter\<close>

lemma filter_monochrome_map:
  "filter_monochrome xs = map (\<lambda>m. if m < MINIMUM then 0 else 0xFF) xs"
  by (induction xs) simp_all

lemma length_filter_monochrome [simp]:
  "length (filter_monochrome xs) = length xs"
  by (induction xs) simp_all

lemma filter_monochrome_twice:
  "filter_monochrome (filter_monochrome xs) = filter_monochrome xs"
  by (induction xs) (simp_all add: MINIMUM_def)

section \<open>Properties of the rounding\<close>

lemma round_half_even_cases:
  "round_half_even q = \<lfloor>q\<rfloor> \<or> round_half_even q = \<lfloor>q\<rfloor> + 1"
  by (simp add: round_half_even_def Let_def)

lemma round_half_even_of_int [simp]: "round_half_even (of_int n) = n"
  by (simp add: round_half_even_def)

lemma round_half_even_mono:
  assumes "a \<le> b"
  shows "round_half_even a \<le> round_half_even b"
proof (cases "\<lfloor>a\<rfloor> = \<lfloor>b\<rfloor>")
  case True
  with assms show ?thesis
    by (auto simp: round_half_even_def Let_def)
next
  case False
  with assms have "\<lfloor>a\<rfloor> + 1 \<le> \<lfloor>b\<rfloor>"
    using floor_mono [OF assms] by linarith
  moreover have "round_half_even a \<le> \<lfloor>a\<rfloor> + 1"
    using round_half_even_cases [of a] by linarith
  moreover have "\<lfloor>b\<rfloor> \<le> round_half_even b"
    using round_half_even_cases [of b] by linarith
  ultimately show ?thesis by linarith
qed

lemma pow2_nat: "0 \<le> n \<Longrightarrow> (of_int (2 ^ nat n) :: rat) = 2 powi n"
  by (simp add: power_int_def)

lemma ilog2_bounds:
  assumes "0 < q"
  shows "2 powi ilog2 q \<le> q" and "q < 2 powi (ilog2 q + 1)"
proof -
  define p where "p = fst (quotient_of q)"
  define d where "d = snd (quotient_of q)"
  have d: "0 < d" unfolding d_def by (rule quotient_of_denom_pos')
  have q: "q = of_int p / of_int d"
    unfolding p_def d_def by (rule quotient_of_div) simp
  have p: "0 < p"
    using assms d unfolding q by (simp add: zero_less_divide_iff)
  have bp: "1 \<le> bitlen p" and bd: "1 \<le> bitlen d"
    using p d bitlen_eq_zero_iff [of p] bitlen_eq_zero_iff [of d] bitlen_nonneg [of p] bitlen_nonneg [of d]
    by linarith+
  from bitlen_bounds [OF p] have "(of_int (2 ^ nat (bitlen p - 1)) :: rat) \<le> of_int p"
    and "(of_int p :: rat) < of_int (2 ^ nat (bitlen p))"
    by (simp_all only: of_int_le_iff of_int_less_iff)
  then have p1: "2 powi (bitlen p - 1) \<le> (of_int p :: rat)" and p2: "(of_int p :: rat) < 2 powi bitlen p"
    using bp by (simp_all only: pow2_nat[symmetric])
  from bitlen_bounds [OF d] have "(of_int (2 ^ nat (bitlen d - 1)) :: rat) \<le> of_int d"
    and "(of_int d :: rat) < of_int (2 ^ nat (bitlen d))"
    by (simp_all only: of_int_le_iff of_int_less_iff)
  then have d1: "2 powi (bitlen d - 1) \<le> (of_int d :: rat)" and d2: "(of_int d :: rat) < 2 powi bitlen d"
    using bd by (simp_all only: pow2_nat[symmetric])
  define k where "k = bitlen p - bitlen d"
  have dpos: "(0::rat) < of_int d" using d by simp
  have up: "q < 2 powi (k + 1)"
  proof -
    have "2 powi (k + 1) * of_int d \<ge> 2 powi (k + 1) * (2 powi (bitlen d - 1) :: rat)"
      using d1 by (intro mult_left_mono) simp_all
    also have "2 powi (k + 1) * (2 powi (bitlen d - 1) :: rat) = 2 powi bitlen p"
      unfolding k_def by (simp flip: power_int_add)
    finally have "of_int p < 2 powi (k + 1) * (of_int d :: rat)"
      using p2 by linarith
    then show ?thesis
      unfolding q using dpos by (simp add: divide_less_eq)
  qed
  have lo: "2 powi (k - 1) \<le> q"
  proof -
    have "2 powi (k - 1) * of_int d \<le> 2 powi (k - 1) * (2 powi bitlen d :: rat)"
      using d2 by (intro mult_left_mono) simp_all
    also have "2 powi (k - 1) * (2 powi (bitlen d) :: rat) = 2 powi (bitlen p - 1)"
      unfolding k_def by (simp flip: power_int_add)
    finally have "2 powi (k - 1) * (of_int d :: rat) \<le> of_int p"
      using p1 by linarith
    then show ?thesis
      unfolding q using dpos by (simp add: le_divide_eq)
  qed
  have e: "ilog2 q = (if 2 powi k \<le> q then k else k - 1)"
    unfolding ilog2_def k_def p_def d_def by (simp add: Let_def)
  show "2 powi ilog2 q \<le> q"
    using lo unfolding e by simp
  show "q < 2 powi (ilog2 q + 1)"
    using up unfolding e by simp
qed

lemma ilog2_unique:
  assumes "0 < q" "2 powi e \<le> q" "q < 2 powi (e + 1)"
  shows "ilog2 q = e"
proof -
  have "(2::rat) powi e < 2 powi (ilog2 q + 1)"
    using assms(2) ilog2_bounds(2) [OF assms(1)] by linarith
  then have "e < ilog2 q + 1"
    by (metis linorder_not_le one_le_numeral power_int_increasing)
  moreover have "(2::rat) powi ilog2 q < 2 powi (e + 1)"
    using assms(3) ilog2_bounds(1) [OF assms(1)] by linarith
  then have "ilog2 q < e + 1"
    by (metis linorder_not_le one_le_numeral power_int_increasing)
  ultimately show ?thesis by linarith
qed

lemma ilog2_mono:
  assumes "0 < a" "a \<le> b"
  shows "ilog2 a \<le> ilog2 b"
proof -
  have "0 < b" using assms by linarith
  have "(2::rat) powi ilog2 a < 2 powi (ilog2 b + 1)"
    using ilog2_bounds(1) [OF assms(1)] ilog2_bounds(2) [OF \<open>0 < b\<close>] assms(2) by linarith
  then have "ilog2 a < ilog2 b + 1"
    by (metis linorder_not_le one_le_numeral power_int_increasing)
  then show ?thesis by linarith
qed

text \<open>The scaled significand lies between \<open>2 ^ 23\<close> and \<open>2 ^ 24\<close>.\<close>

lemma significand_bounds:
  assumes "0 < q"
  defines "u \<equiv> (2::rat) powi (ilog2 q - 23)"
  shows "2 ^ 23 \<le> q / u" and "q / u < 2 ^ 24" and "0 < u"
proof -
  show u: "0 < u" unfolding u_def by simp
  have a: "2 powi ilog2 q = 2 ^ 23 * u"
    unfolding u_def by (simp add: power_int_diff)
  have b: "2 powi (ilog2 q + 1) = 2 ^ 24 * u"
    unfolding u_def by (simp add: power_int_diff power_int_add)
  show "2 ^ 23 \<le> q / u"
    using ilog2_bounds(1) [OF assms(1)] u unfolding a by (simp add: le_divide_eq)
  show "q / u < 2 ^ 24"
    using ilog2_bounds(2) [OF assms(1)] u unfolding b by (simp add: divide_less_eq)
qed

lemma f32_pos_eq:
  assumes "0 < q"
  shows "f32 q = of_int (round_half_even (q / 2 powi (ilog2 q - 23))) * 2 powi (ilog2 q - 23)"
  using assms by (simp add: f32_def Let_def)

lemma round_significand:
  assumes "0 < q"
  shows "2 ^ 23 \<le> round_half_even (q / 2 powi (ilog2 q - 23))"
    and "round_half_even (q / 2 powi (ilog2 q - 23)) \<le> 2 ^ 24"
proof -
  have "round_half_even (of_int (2 ^ 23)) \<le> round_half_even (q / 2 powi (ilog2 q - 23))"
    by (rule round_half_even_mono) (use significand_bounds(1) [OF assms] in simp)
  then show "2 ^ 23 \<le> round_half_even (q / 2 powi (ilog2 q - 23))"
    by (simp only: round_half_even_of_int)
  have "round_half_even (q / 2 powi (ilog2 q - 23)) \<le> round_half_even (of_int (2 ^ 24))"
    by (rule round_half_even_mono) (use significand_bounds(2) [OF assms] in simp)
  then show "round_half_even (q / 2 powi (ilog2 q - 23)) \<le> 2 ^ 24"
    by (simp only: round_half_even_of_int)
qed

lemma f32_bounds:
  assumes "0 < q"
  shows "2 powi ilog2 q \<le> f32 q" and "f32 q \<le> 2 powi (ilog2 q + 1)"
proof -
  let ?u = "(2::rat) powi (ilog2 q - 23)"
  let ?m = "round_half_even (q / ?u)"
  have u: "0 < ?u" by simp
  have a: "2 powi ilog2 q = 2 ^ 23 * ?u"
    by (simp add: power_int_diff)
  have b: "2 powi (ilog2 q + 1) = 2 ^ 24 * ?u"
    by (simp add: power_int_diff power_int_add)
  have "(of_int (2 ^ 23) :: rat) \<le> of_int ?m"
    using round_significand(1) [OF assms] by (simp only: of_int_le_iff)
  then have "2 ^ 23 * ?u \<le> of_int ?m * ?u"
    using u by (intro mult_right_mono) simp_all
  then show "2 powi ilog2 q \<le> f32 q"
    unfolding f32_pos_eq [OF assms] a .
  have "(of_int ?m :: rat) \<le> of_int (2 ^ 24)"
    using round_significand(2) [OF assms] by (simp only: of_int_le_iff)
  then have "of_int ?m * ?u \<le> 2 ^ 24 * ?u"
    using u by (intro mult_right_mono) simp_all
  then show "f32 q \<le> 2 powi (ilog2 q + 1)"
    unfolding f32_pos_eq [OF assms] b .
qed

lemma f32_zero [simp]: "f32 0 = 0"
  by (simp add: f32_def)

lemma f32_pos: "0 < q \<Longrightarrow> 0 < f32 q"
  using f32_bounds(1) [of q] zero_less_power_int [of "2::rat" "ilog2 q"] by linarith

lemma f32_nonneg: "0 \<le> q \<Longrightarrow> 0 \<le> f32 q"
  using f32_pos [of q] by (cases "q = 0") (simp_all add: less_le)

lemma f32_mono:
  assumes "0 \<le> a" "a \<le> b"
  shows "f32 a \<le> f32 b"
proof (cases "a = 0")
  case True
  then show ?thesis using f32_nonneg [of b] assms by simp
next
  case False
  then have a: "0 < a" using assms by simp
  then have b: "0 < b" using assms by linarith
  show ?thesis
  proof (cases "ilog2 a = ilog2 b")
    case True
    let ?u = "(2::rat) powi (ilog2 b - 23)"
    have "a / ?u \<le> b / ?u"
      using assms(2) by (simp add: divide_right_mono)
    then have "round_half_even (a / ?u) \<le> round_half_even (b / ?u)"
      by (rule round_half_even_mono)
    then have "(of_int (round_half_even (a / ?u)) :: rat) \<le> of_int (round_half_even (b / ?u))"
      by (simp only: of_int_le_iff)
    then have "of_int (round_half_even (a / ?u)) * ?u \<le> of_int (round_half_even (b / ?u)) * ?u"
      by (intro mult_right_mono) simp_all
    then show ?thesis
      unfolding f32_pos_eq [OF a] f32_pos_eq [OF b] True .
  next
    case False
    then have "ilog2 a + 1 \<le> ilog2 b"
      using ilog2_mono [OF a assms(2)] by linarith
    then have "(2::rat) powi (ilog2 a + 1) \<le> 2 powi ilog2 b"
      by (intro power_int_increasing) simp_all
    then show ?thesis
      using f32_bounds(2) [OF a] f32_bounds(1) [OF b] by linarith
  qed
qed

lemma f32_exact:
  assumes "0 < k" "k < 2 ^ 24"
  shows "f32 (of_int k * 2 powi j) = of_int k * 2 powi j"
proof -
  let ?q = "of_int k * (2::rat) powi j"
  have q: "0 < ?q" using assms by simp
  define b where "b = bitlen k"
  have b1: "1 \<le> b"
    using assms(1) bitlen_eq_zero_iff [of k] bitlen_nonneg [of k] unfolding b_def by linarith
  from bitlen_bounds [OF assms(1)] have "(of_int (2 ^ nat (b - 1)) :: rat) \<le> of_int k"
    and "(of_int k :: rat) < of_int (2 ^ nat b)"
    unfolding b_def by (simp_all only: of_int_le_iff of_int_less_iff)
  then have k1: "2 powi (b - 1) \<le> (of_int k :: rat)" and k2: "(of_int k :: rat) < 2 powi b"
    using b1 by (simp_all only: pow2_nat[symmetric])
  have "(2::int) ^ nat (b - 1) < 2 ^ 24"
    using bitlen_bounds [OF assms(1)] assms(2) unfolding b_def by linarith
  then have "nat (b - 1) < 24"
    using power_less_imp_less_exp [of "2::int" "nat (b - 1)" 24] by simp
  then have b24: "b \<le> 24" by linarith
  have "2 powi (b - 1 + j) \<le> ?q"
    using k1 by (simp add: power_int_add mult_right_mono)
  moreover have "?q < 2 powi (b - 1 + j + 1)"
    using k2 by (simp add: power_int_add mult_strict_right_mono)
  ultimately have e: "ilog2 ?q = b - 1 + j"
    using q by (intro ilog2_unique)
  have "?q / 2 powi (ilog2 ?q - 23) = of_int k * 2 powi (24 - b)"
    unfolding e by (simp add: power_int_diff power_int_add field_simps)
  also have "\<dots> = of_int (k * 2 ^ nat (24 - b))"
    using b24 by (simp add: power_int_def)
  finally have "round_half_even (?q / 2 powi (ilog2 ?q - 23)) = k * 2 ^ nat (24 - b)"
    by (simp only: round_half_even_of_int)
  then have "f32 ?q = of_int (k * 2 ^ nat (24 - b)) * 2 powi (b - 1 + j - 23)"
    unfolding f32_pos_eq [OF q] e by simp
  also have "\<dots> = of_int k * 2 powi (24 - b) * 2 powi (b - 1 + j - 23)"
    using b24 by (simp add: power_int_def)
  also have "\<dots> = ?q"
    by (simp add: mult.assoc flip: power_int_add)
  finally show ?thesis .
qed

lemma f32_of_nat: "n < 2 ^ 24 \<Longrightarrow> f32 (of_nat n) = of_nat n"
  using f32_exact [of "int n" 0] by (cases "n = 0") simp_all

lemma f32_one [simp]: "f32 1 = 1"
  using f32_of_nat [of 1] by simp

lemma f32_numeral: "(numeral k :: nat) < 2 ^ 24 \<Longrightarrow> f32 (numeral k) = numeral k"
  using f32_of_nat [of "numeral k"] by simp

lemma f32_three_quarters: "f32 (3 / 4) = 3 / 4"
  using f32_exact [of 3 "- 2"] by (simp add: power_int_minus)

section \<open>Properties of the loop combinators\<close>

lemma and_then_Inr [simp]: "and_then (Inr v) f = f v"
  by (simp add: and_then_def)

lemma and_then_Inl [simp]: "and_then (Inl e) f = Inl e"
  by (simp add: and_then_def)

lemma and_then_eq_Inr:
  "and_then m f = Inr r \<longleftrightarrow> (\<exists>v. m = Inr v \<and> f v = Inr r)"
  by (cases m) simp_all

lemma read_at_in [simp]: "i < length xs \<Longrightarrow> read_at xs i = Inr (xs ! i)"
  by (simp add: read_at_def)

lemma for_each_append:
  "for_each (xs @ ys) body s = and_then (for_each xs body s) (for_each ys body)"
  by (induction xs arbitrary: s) (simp_all add: and_then_def split: sum.splits)

lemma for_each_map:
  "for_each (map g xs) body s = for_each xs (\<lambda>i. body (g i)) s"
  by (induction xs arbitrary: s) (simp_all add: and_then_def split: sum.splits)

lemma for_each_cong:
  "(\<And>i s. i \<in> set xs \<Longrightarrow> body i s = body' i s) \<Longrightarrow> for_each xs body s = for_each xs body' s"
  by (induction xs arbitrary: s) (simp_all add: and_then_def split: sum.splits)

lemma for_each_pure:
  "for_each xs (\<lambda>i s. Inr (g i s)) s = Inr (fold g xs s)"
  by (induction xs arbitrary: s) simp_all

lemma for_each_nested:
  "for_each ys (\<lambda>y. for_each xs (\<lambda>x. body x y)) s
   = for_each (concat (map (\<lambda>y. map (\<lambda>x. (x, y)) xs) ys)) (\<lambda>p. body (fst p) (snd p)) s"
proof (induction ys arbitrary: s)
  case Nil
  then show ?case by simp
next
  case (Cons y ys)
  show ?case
    by (simp add: for_each_append for_each_map Cons.IH [abs_def])
qed

lemma length_range32 [simp]: "length (range32 a b) = unat b - unat a"
  by (simp add: range32_def)

lemma length_rect: "length (rect w h) = unat w * unat h"
  by (simp add: rect_def length_concat comp_def sum_list_triv)

lemma set_range32: "set (range32 a b) = {v. a \<le> v \<and> v < b}"
proof -
  have "\<And>n. unat a \<le> n \<Longrightarrow> n < unat b \<Longrightarrow> (word_of_nat n :: u32) \<in> {v. a \<le> v \<and> v < b}"
  proof -
    fix n assume n: "unat a \<le> n" "n < unat b"
    have "n < 2 ^ 32" using n(2) unsigned_less [of b, where ?'a = nat] by simp
    then have "unat (word_of_nat n :: u32) = n"
      by (simp add: unat_of_nat)
    then show "(word_of_nat n :: u32) \<in> {v. a \<le> v \<and> v < b}"
      using n by (simp add: word_le_nat_alt word_less_nat_alt)
  qed
  moreover have "\<And>v. a \<le> v \<Longrightarrow> v < b \<Longrightarrow> v \<in> word_of_nat ` {unat a..<unat b}"
  proof -
    fix v :: u32 assume "a \<le> v" "v < b"
    then have "unat v \<in> {unat a..<unat b}"
      by (simp add: word_le_nat_alt word_less_nat_alt)
    then show "v \<in> word_of_nat ` {unat a..<unat b}"
      by (intro image_eqI [where x = "unat v"]) simp_all
  qed
  ultimately show ?thesis
    unfolding range32_def by auto
qed

lemma set_rect: "set (rect w h) = {p. fst p < w \<and> snd p < h}"
  by (auto simp: rect_def set_range32)

lemma fold_count:
  "fold (\<lambda>i (hits :: u32). hits + (if P i then 1 else 0)) xs h0
   = h0 + word_of_nat (length (filter P xs))"
  by (induction xs arbitrary: h0) simp_all

text \<open>
  A scan that keeps the highest score seen so far, and with it what the first position
  that reached it left behind.
\<close>

lemma scan_first_payload:
  assumes "\<forall>p \<in> set ps. M p = Inr (s p)"
  shows "for_each ps (\<lambda>p found. and_then (M p) (\<lambda>match_percent.
                  Inr (if match_percent > fst found then (match_percent, Some (g p)) else found)))
             (m0 :: rat, l0)
           = Inr (Max (insert m0 (s ` set ps)),
                  if Max (insert m0 (s ` set ps)) = m0 then l0
                  else map_option g (find (\<lambda>p. s p = Max (insert m0 (s ` set ps))) ps))"
  using assms
proof (induction ps arbitrary: m0 l0)
  case Nil
  then show ?case by simp
next
  case (Cons p ps)
  let ?m1 = "if s p > m0 then s p else m0"
  let ?l1 = "if s p > m0 then Some (g p) else l0"
  let ?M = "Max (insert ?m1 (s ` set ps))"
  have step: "and_then (M p) (\<lambda>match_percent.
                  Inr (if match_percent > fst (m0, l0) then (match_percent, Some (g p)) else (m0, l0)))
              = Inr (?m1, ?l1)"
    using Cons.prems by simp
  have mx: "Max (insert m0 (s ` set (p # ps))) = ?M"
  proof -
    have "Max (insert m0 (s ` set (p # ps))) = max (max m0 (s p)) ?M"
      by (cases "set ps = {}") (auto simp: max_def Max_insert)
    also have "\<dots> = ?M"
      by (cases "set ps = {}") (auto simp: max_def)
    finally show ?thesis .
  qed
  have "\<forall>q \<in> set ps. M q = Inr (s q)" using Cons.prems by simp
  from Cons.IH [OF this, of ?m1 ?l1]
  have r: "for_each ps (\<lambda>p found. and_then (M p) (\<lambda>match_percent.
                  Inr (if match_percent > fst found then (match_percent, Some (g p)) else found)))
             (?m1, ?l1) = Inr (?M, if ?M = ?m1 then ?l1 else map_option g (find (\<lambda>p. s p = ?M) ps))" .
  define Mv where "Mv = ?M"
  have ge: "?m1 \<le> Mv"
    unfolding Mv_def by (intro Max_ge) simp_all
  have l: "(if Mv = ?m1 then ?l1 else map_option g (find (\<lambda>p. s p = Mv) ps))
         = (if Mv = m0 then l0 else map_option g (find (\<lambda>p. s p = Mv) (p # ps)))"
  proof (cases "s p > m0")
    case True
    then have "s p \<le> Mv" "m0 < Mv"
      using ge by simp_all
    then show ?thesis
      using True by auto
  next
    case False
    then have "m0 \<le> Mv" "s p \<le> m0"
      using ge by simp_all
    then show ?thesis
      using False by auto
  qed
  show ?case
    unfolding mx using step r l unfolding Mv_def by simp
qed

section \<open>Properties of the matcher\<close>

lemma pixel_hit_iff:
  "pixel_hit a b \<longleftrightarrow> \<bar>int (unat a) - int (unat b)\<bar> < 0x10"
  by (simp add: pixel_hit_def Let_def abs_if)

lemma match_outside:
  "x + width t > W \<or> y + height t > 480 \<or> width t = 0 \<or> height t = 0 \<Longrightarrow> match buf W t x y = Inr 0"
  by (simp add: match_def)

lemma match_loop:
  assumes "reads_in_bounds buf W t x y"
  shows "for_each (range32 0 (height t)) (\<lambda>ty.
           for_each (range32 0 (width t)) (\<lambda>tx hits.
             and_then (read_at (pixels t) (unat (tx + ty * width t))) (\<lambda>text_pixel.
             and_then (read_at buf (unat (tx + x + (ty + y) * W))) (\<lambda>image_pixel.
               Inr (hits + (if pixel_hit text_pixel image_pixel then 1 else 0))))))
           (0 :: u32)
         = Inr (word_of_nat (hit_count buf W t x y))"
proof -
  let ?P = "\<lambda>p. pixel_hit (pixels t ! unat (fst p + snd p * width t))
                         (buf ! unat (fst p + x + (snd p + y) * W))"
  have "for_each (range32 0 (height t)) (\<lambda>ty.
           for_each (range32 0 (width t)) (\<lambda>tx hits.
             and_then (read_at (pixels t) (unat (tx + ty * width t))) (\<lambda>text_pixel.
             and_then (read_at buf (unat (tx + x + (ty + y) * W))) (\<lambda>image_pixel.
               Inr (hits + (if pixel_hit text_pixel image_pixel then 1 else 0))))))
           (0 :: u32)
     = for_each (rect (width t) (height t)) (\<lambda>p hits.
             and_then (read_at (pixels t) (unat (fst p + snd p * width t))) (\<lambda>text_pixel.
             and_then (read_at buf (unat (fst p + x + (snd p + y) * W))) (\<lambda>image_pixel.
               Inr (hits + (if pixel_hit text_pixel image_pixel then 1 else 0))))) 0"
    unfolding rect_def by (rule for_each_nested)
  also have "\<dots> = for_each (rect (width t) (height t))
                      (\<lambda>p hits. Inr (hits + (if ?P p then 1 else 0))) 0"
    using assms by (intro for_each_cong) (simp add: reads_in_bounds_def list_all_iff)
  also have "\<dots> = Inr (word_of_nat (length (filter ?P (rect (width t) (height t)))))"
    by (simp add: for_each_pure fold_count)
  finally show ?thesis
    by (simp add: hit_count_def pixel_hit_iff)
qed

lemma hit_count_le: "hit_count buf W t x y \<le> unat (width t) * unat (height t)"
  unfolding hit_count_def using length_filter_le [of _ "rect (width t) (height t)"]
  by (simp only: length_rect)

lemma match_inside:
  assumes inside: "\<not> (x + width t > W \<or> y + height t > 480 \<or> width t = 0 \<or> height t = 0)"
    and reads: "reads_in_bounds buf W t x y"
    and total: "unat (height t) * unat (width t) < 2 ^ 32"
  shows "match buf W t x y
         = Inr (f32 (f32 (of_nat (hit_count buf W t x y)) / f32 (of_nat (unat (height t) * unat (width t)))))"
    and "0 \<le> f32 (f32 (of_nat (hit_count buf W t x y)) / f32 (of_nat (unat (height t) * unat (width t))))"
    and "f32 (f32 (of_nat (hit_count buf W t x y)) / f32 (of_nat (unat (height t) * unat (width t)))) \<le> 1"
proof -
  define n where "n = hit_count buf W t x y"
  define total where "total = unat (height t) * unat (width t)"
  have n: "n \<le> total"
    using hit_count_le [of buf W t x y] by (simp add: mult.commute n_def total_def)
  have tpos: "1 \<le> total"
    using inside by (simp add: unat_gt_0 total_def Suc_le_eq)
  have un: "unat (word_of_nat n :: u32) = n"
    using n total by (simp add: unat_of_nat total_def)
  have ut: "unat (height t * width t) = total"
    using total unat_mult_lem [of "height t" "width t"] by (simp add: total_def)
  have r1: "(1::rat) \<le> of_nat total"
    using of_nat_mono [OF tpos, where ?'a = rat] by simp
  have ft: "1 \<le> f32 (of_nat total)"
    using f32_mono [of 1 "of_nat total"] r1 by simp
  have fn: "0 \<le> f32 (of_nat n)"
    by (rule f32_nonneg) simp
  have le: "f32 (of_nat n) \<le> f32 (of_nat total)"
    using n by (intro f32_mono) simp_all
  have "match buf W t x y = Inr (f32 (f32 (of_nat n) / f32 (of_nat total)))"
    using inside ft
    by (simp add: match_def match_loop [OF reads] float_div_def u32_to_float_def un ut
        flip: n_def del: of_nat_unat)
  then show "match buf W t x y
         = Inr (f32 (f32 (of_nat (hit_count buf W t x y)) / f32 (of_nat (unat (height t) * unat (width t)))))"
    unfolding n_def total_def .
  have "0 \<le> f32 (f32 (of_nat n) / f32 (of_nat total))"
    using fn ft by (intro f32_nonneg) simp
  then show "0 \<le> f32 (f32 (of_nat (hit_count buf W t x y)) / f32 (of_nat (unat (height t) * unat (width t))))"
    unfolding n_def total_def .
  have "f32 (of_nat n) / f32 (of_nat total) \<le> 1"
    using le ft by (simp add: divide_le_eq_1)
  then have "f32 (f32 (of_nat n) / f32 (of_nat total)) \<le> f32 1"
    using fn ft by (intro f32_mono) simp_all
  then have "f32 (f32 (of_nat n) / f32 (of_nat total)) \<le> 1"
    by simp
  then show "f32 (f32 (of_nat (hit_count buf W t x y)) / f32 (of_nat (unat (height t) * unat (width t)))) \<le> 1"
    unfolding n_def total_def .
qed

text \<open>Well-formed inputs without wrap-around keep every read in bounds.\<close>

lemma reads_in_bounds_wf:
  assumes tpl: "length (pixels t) = unat (width t) * unat (height t)"
    and tfit: "unat (width t) * unat (height t) < 2 ^ 32"
    and scr: "length buf = unat W * 480" and sfit: "unat W * 480 < 2 ^ 32"
    and xin: "unat x + unat (width t) \<le> unat W" and yin: "unat y + unat (height t) \<le> 480"
  shows "reads_in_bounds buf W t x y"
  unfolding reads_in_bounds_def list_all_iff set_rect
proof (intro ballI conjI)
  fix p :: "u32 \<times> u32"
  assume "p \<in> {p. fst p < width t \<and> snd p < height t}"
  then have px: "unat (fst p) < unat (width t)" and py: "unat (snd p) < unat (height t)"
    by (simp_all add: word_less_nat_alt)
  have "unat (fst p) + unat (snd p) * unat (width t) < unat (width t) * (unat (snd p) + 1)"
    using px by (simp add: algebra_simps)
  also have "\<dots> \<le> unat (width t) * unat (height t)"
    using py by (intro mult_le_mono2) simp
  finally have a: "unat (fst p) + unat (snd p) * unat (width t) < unat (width t) * unat (height t)" .
  have m: "unat (snd p * width t) = unat (snd p) * unat (width t)"
    using a tfit unat_mult_lem [of "snd p" "width t"] by simp
  have "unat (fst p + snd p * width t) = unat (fst p) + unat (snd p) * unat (width t)"
    using a tfit m unat_add_lem [of "fst p" "snd p * width t"] by simp
  then show "unat (fst p + snd p * width t) < length (pixels t)"
    using a tpl by simp
  have yy: "unat (snd p) + unat y < 480"
    using py yin by linarith
  have xx: "unat (fst p) + unat x < unat W"
    using px xin by linarith
  have "unat (fst p) + unat x + (unat (snd p) + unat y) * unat W < unat W * (unat (snd p) + unat y + 1)"
    using xx by (simp add: algebra_simps)
  also have "\<dots> \<le> unat W * 480"
    using yy by (intro mult_le_mono2) simp
  finally have b: "unat (fst p) + unat x + (unat (snd p) + unat y) * unat W < unat W * 480" .
  have s1: "unat (snd p + y) = unat (snd p) + unat y"
    using yy unat_add_lem [of "snd p" y] by simp
  have "(unat (snd p) + unat y) * unat W \<le> unat (fst p) + unat x + (unat (snd p) + unat y) * unat W"
    by simp
  then have s2: "unat ((snd p + y) * W) = (unat (snd p) + unat y) * unat W"
    using b sfit s1 unat_mult_lem [of "snd p + y" W] by simp
  have s3: "unat (fst p + x) = unat (fst p) + unat x"
    using xx unat_add_lem [of "fst p" x] unsigned_less [of W, where ?'a = nat] by simp
  have "unat (fst p + x + (snd p + y) * W) = unat (fst p) + unat x + (unat (snd p) + unat y) * unat W"
    using b sfit s2 s3 unat_add_lem [of "fst p + x" "(snd p + y) * W"] by simp
  then show "unat (fst p + x + (snd p + y) * W) < length buf"
    using b scr by simp
qed

lemma rect_2_2: "rect 2 2 = [(0, 0), (1, 0), (0, 1), (1, 1)]"
  by (simp add: rect_def range32_def upt_rec)

lemma small_reads: "reads_in_bounds small_screen 4 small_template 1 1"
  by (simp add: reads_in_bounds_def small_screen_def small_template_def rect_2_2)

lemma small_hits: "hit_count small_screen 4 small_template 1 1 = 3"
  by (simp add: hit_count_def small_screen_def small_template_def rect_2_2)

section \<open>Properties of the rasterizer\<close>

lemma index_in_bounds:
  assumes "wf_image img" "X < width img" "Y < height img"
  shows "unat (X + Y * width img) = pixel_index img X Y"
    and "pixel_index img X Y < length (pixels img)"
proof -
  have x: "unat X < unat (width img)" and y: "unat Y < unat (height img)"
    using assms by (simp_all add: word_less_nat_alt)
  have "unat X + unat Y * unat (width img) < unat (width img) * (unat Y + 1)"
    using x by (simp add: algebra_simps)
  also have "\<dots> \<le> unat (width img) * unat (height img)"
    using y by (intro mult_le_mono2) simp
  finally have a: "unat X + unat Y * unat (width img) < unat (width img) * unat (height img)" .
  have fit: "unat (width img) * unat (height img) < 2 ^ 32"
    using assms(1) by (simp add: wf_image_def)
  have m: "unat (Y * width img) = unat Y * unat (width img)"
    using a fit unat_mult_lem [of Y "width img"] by simp
  show "unat (X + Y * width img) = pixel_index img X Y"
    using a fit m unat_add_lem [of X "Y * width img"] by (simp add: pixel_index_def)
  show "pixel_index img X Y < length (pixels img)"
    using a assms(1) by (simp add: wf_image_def pixel_index_def)
qed

lemma pixel_index_inj:
  assumes "X < width img" "X' < width img" "pixel_index img X Y = pixel_index img X' Y'"
  shows "X = X' \<and> Y = Y'"
proof -
  let ?w = "unat (width img)"
  have x: "unat X < ?w" and x': "unat X' < ?w"
    using assms by (simp_all add: word_less_nat_alt)
  have e: "unat X + unat Y * ?w = unat X' + unat Y' * ?w"
    using assms(3) by (simp add: pixel_index_def)
  have "(unat X + unat Y * ?w) div ?w = unat Y" "(unat X' + unat Y' * ?w) div ?w = unat Y'"
    using x x' by simp_all
  then have y: "unat Y = unat Y'" using e by simp
  then have "unat X = unat X'" using e by simp
  then show ?thesis using y by (simp add: word_unat_eq_iff)
qed

lemma set_pixel_effect:
  assumes wf: "wf_image img"
  shows "\<exists>img'. set_pixel img X0 Y0 v = Inr img'
           \<and> wf_image img' \<and> width img' = width img \<and> height img' = height img
           \<and> text' img' = text' img
           \<and> (\<forall>X Y. X < width img \<and> Y < height img \<longrightarrow>
                 pixels img' ! pixel_index img X Y
                 = (if X = X0 \<and> Y = Y0 then attenuate v else pixels img ! pixel_index img X Y))"
proof (cases "X0 < width img \<and> Y0 < height img")
  case False
  then show ?thesis
    using wf by (auto simp: set_pixel_def)
next
  case True
  then have x0: "X0 < width img" and y0: "Y0 < height img" by simp_all
  note i0 = index_in_bounds [OF wf x0 y0]
  let ?img' = "img\<lparr>pixels := (pixels img)[pixel_index img X0 Y0 := attenuate v]\<rparr>"
  have r: "set_pixel img X0 Y0 v = Inr ?img'"
    using True i0 by (simp add: set_pixel_def Let_def attenuate_def)
  have "\<forall>X Y. X < width img \<and> Y < height img \<longrightarrow>
          pixels ?img' ! pixel_index img X Y
          = (if X = X0 \<and> Y = Y0 then attenuate v else pixels img ! pixel_index img X Y)"
  proof (intro allI impI)
    fix X Y assume b: "X < width img \<and> Y < height img"
    show "pixels ?img' ! pixel_index img X Y
          = (if X = X0 \<and> Y = Y0 then attenuate v else pixels img ! pixel_index img X Y)"
    proof (cases "X = X0 \<and> Y = Y0")
      case True
      then show ?thesis using i0(2) by simp
    next
      case False
      then have "pixel_index img X0 Y0 \<noteq> pixel_index img X Y"
        using pixel_index_inj [of X0 img X Y0 Y] x0 b by auto
      then show ?thesis using False by auto
    qed
  qed
  then show ?thesis
    using r wf by (intro exI [of _ ?img']) (simp add: wf_image_def)
qed

lemma pixel_index_width:
  "width img' = width img \<Longrightarrow> pixel_index img' X Y = pixel_index img X Y"
  by (simp add: pixel_index_def)

lemma glyph_loop:
  assumes "wf_image img"
    and "\<forall>p \<in> set ps. off + unat (fst p + snd p * BW) < length pool"
  shows "\<exists>img'. for_each ps (\<lambda>p drawn.
                    and_then (read_at pool (off + unat (fst p + snd p * BW)))
                      (set_pixel drawn (xc + fst p) (snd p + BY))) img = Inr img'
           \<and> wf_image img' \<and> width img' = width img \<and> height img' = height img
           \<and> text' img' = text' img
           \<and> (\<forall>X Y. X < width img \<and> Y < height img \<longrightarrow>
                 pixels img' ! pixel_index img X Y
                 = (if (X - xc, Y - BY) \<in> set ps
                    then attenuate (pool ! (off + unat ((X - xc) + (Y - BY) * BW)))
                    else pixels img ! pixel_index img X Y))"
  using assms
proof (induction ps arbitrary: img)
  case Nil
  then show ?case by simp
next
  case (Cons p ps)
  let ?v = "pool ! (off + unat (fst p + snd p * BW))"
  have rd: "read_at pool (off + unat (fst p + snd p * BW)) = Inr ?v"
    using Cons.prems(2) by simp
  from set_pixel_effect [OF Cons.prems(1), of "xc + fst p" "snd p + BY" ?v]
  obtain img1 where s1: "set_pixel img (xc + fst p) (snd p + BY) ?v = Inr img1"
    and wf1: "wf_image img1" and w1: "width img1 = width img" and h1: "height img1 = height img"
    and t1: "text' img1 = text' img"
    and p1: "\<forall>X Y. X < width img \<and> Y < height img \<longrightarrow>
                 pixels img1 ! pixel_index img X Y
                 = (if X = xc + fst p \<and> Y = snd p + BY then attenuate ?v
                    else pixels img ! pixel_index img X Y)"
    by blast
  have "\<forall>p \<in> set ps. off + unat (fst p + snd p * BW) < length pool"
    using Cons.prems(2) by simp
  from Cons.IH [OF wf1 this]
  obtain img' where r: "for_each ps (\<lambda>p drawn.
                    and_then (read_at pool (off + unat (fst p + snd p * BW)))
                      (set_pixel drawn (xc + fst p) (snd p + BY))) img1 = Inr img'"
    and wf': "wf_image img'" and w': "width img' = width img1" and h': "height img' = height img1"
    and t': "text' img' = text' img1"
    and p': "\<forall>X Y. X < width img1 \<and> Y < height img1 \<longrightarrow>
                 pixels img' ! pixel_index img1 X Y
                 = (if (X - xc, Y - BY) \<in> set ps
                    then attenuate (pool ! (off + unat ((X - xc) + (Y - BY) * BW)))
                    else pixels img1 ! pixel_index img1 X Y)"
    by blast
  have pix: "\<forall>X Y. X < width img \<and> Y < height img \<longrightarrow>
                 pixels img' ! pixel_index img X Y
                 = (if (X - xc, Y - BY) \<in> set (p # ps)
                    then attenuate (pool ! (off + unat ((X - xc) + (Y - BY) * BW)))
                    else pixels img ! pixel_index img X Y)"
  proof (intro allI impI)
    fix X Y assume b: "X < width img \<and> Y < height img"
    have eqp: "(X = xc + fst p \<and> Y = snd p + BY) \<longleftrightarrow> (X - xc, Y - BY) = p"
      by (cases p) (auto simp: algebra_simps)
    have a: "pixels img' ! pixel_index img X Y
          = (if (X - xc, Y - BY) \<in> set ps
             then attenuate (pool ! (off + unat ((X - xc) + (Y - BY) * BW)))
             else pixels img1 ! pixel_index img X Y)"
      using p' [rule_format, of X Y] b w1 h1 by (simp add: pixel_index_width [OF w1])
    have c: "pixels img1 ! pixel_index img X Y
          = (if (X - xc, Y - BY) = p then attenuate ?v else pixels img ! pixel_index img X Y)"
      using p1 [rule_format, of X Y] b eqp by simp
    show "pixels img' ! pixel_index img X Y
                 = (if (X - xc, Y - BY) \<in> set (p # ps)
                    then attenuate (pool ! (off + unat ((X - xc) + (Y - BY) * BW)))
                    else pixels img ! pixel_index img X Y)"
      unfolding a c by auto
  qed
  show ?case
    using rd s1 r wf' w' h' t' w1 h1 t1 pix by (intro exI [of _ img']) simp
qed

lemma unat_scast_nonneg:
  fixes w :: i16
  assumes "0 \<le> sint w"
  shows "unat (scast w :: u32) = nat (sint w)" and "nat (sint w) < 2 ^ 15"
proof -
  have lt: "sint w < 2 ^ 15"
    using sint_lt [of w] by simp
  then show "nat (sint w) < 2 ^ 15"
    using assms by (simp add: nat_less_iff)
  have "(scast w :: u32) = word_of_int (sint w)"
    by simp
  then have "unat (scast w :: u32) = nat (take_bit 32 (sint w))"
    by (simp only: unsigned_of_int) simp
  also have "take_bit 32 (sint w) = sint w"
    using assms lt by (simp add: take_bit_int_eq_self)
  finally show "unat (scast w :: u32) = nat (sint w)" .
qed

lemma rect_source_index:
  fixes BW BH :: u32
  assumes "unat BW < 2 ^ 15" "unat BH < 2 ^ 15" "x < BW" "y < BH"
  shows "unat (x + y * BW) = unat x + unat y * unat BW"
    and "unat x + unat y * unat BW < unat BW * unat BH"
proof -
  have x: "unat x < unat BW" and y: "unat y < unat BH"
    using assms by (simp_all add: word_less_nat_alt)
  have "unat x + unat y * unat BW < unat BW * (unat y + 1)"
    using x by (simp add: algebra_simps)
  also have "\<dots> \<le> unat BW * unat BH"
    using y by (intro mult_le_mono2) simp
  finally show a: "unat x + unat y * unat BW < unat BW * unat BH" .
  have "unat BW * unat BH \<le> 2 ^ 15 * 2 ^ 15"
    using assms(1,2) by (intro mult_mono) simp_all
  then have fit: "unat BW * unat BH < 2 ^ 32"
    by simp
  have m: "unat (y * BW) = unat y * unat BW"
    using a fit unat_mult_lem [of y BW] by simp
  show "unat (x + y * BW) = unat x + unat y * unat BW"
    using a fit m unat_add_lem [of x "y * BW"] by simp
qed

lemma draw_character_effect:
  fixes font :: Font and c :: FontCharacter
  assumes wf: "wf_image img" and pool: "glyph_in_pool monochrome_pixels c"
  defines "BW \<equiv> (scast (swap_endian16 (bitmap_width c)) :: u32)"
    and "BH \<equiv> (scast (swap_endian16 (bitmap_height c)) :: u32)"
    and "BY \<equiv> (word_of_int (sint (swap_endian16 (ascending_height font))
                            - sint (swap_endian16 (bitmap_origin_y c))) :: u32)"
    and "off \<equiv> unat (swap_endian32 (pixels_offset c))"
  shows "\<exists>img'. draw_character monochrome_pixels font c (img, x_cursor)
                  = Inr (img', x_cursor + scast (swap_endian16 (character_width c)))
           \<and> wf_image img' \<and> width img' = width img \<and> height img' = height img
           \<and> text' img' = text' img
           \<and> (\<not> glyph_drawn c \<longrightarrow> img' = img)
           \<and> (\<forall>X Y. X < width img \<and> Y < height img \<longrightarrow>
                 pixels img' ! pixel_index img X Y
                 = (if glyph_drawn c \<and> X - x_cursor < BW \<and> Y - BY < BH
                    then attenuate (monochrome_pixels !
                           (off + unat (X - x_cursor) + unat (Y - BY) * unat BW))
                    else pixels img ! pixel_index img X Y))"
proof (cases "glyph_drawn c")
  case False
  then have "draw_character monochrome_pixels font c (img, x_cursor)
             = Inr (img, x_cursor + scast (swap_endian16 (character_width c)))"
    by (auto simp: draw_character_def glyph_drawn_def Let_def)
  then show ?thesis
    using wf False by (intro exI [of _ img]) simp
next
  case True
  have bw: "unat BW = nat (sint (swap_endian16 (bitmap_width c)))" "unat BW < 2 ^ 15"
    and bh: "unat BH = nat (sint (swap_endian16 (bitmap_height c)))" "unat BH < 2 ^ 15"
    using True unat_scast_nonneg [of "swap_endian16 (bitmap_width c)"]
      unat_scast_nonneg [of "swap_endian16 (bitmap_height c)"]
    unfolding BW_def BH_def glyph_drawn_def by simp_all
  have inpool: "off + unat BW * unat BH \<le> length monochrome_pixels"
    using pool True unfolding glyph_in_pool_def bw(1) bh(1) off_def by simp
  have reads: "\<forall>p \<in> set (rect BW BH). off + unat (fst p + snd p * BW) < length monochrome_pixels"
  proof
    fix p assume "p \<in> set (rect BW BH)"
    then have "fst p < BW" "snd p < BH" by (simp_all add: set_rect)
    from rect_source_index [OF bw(2) bh(2) this] inpool
    show "off + unat (fst p + snd p * BW) < length monochrome_pixels"
      by simp
  qed
  from glyph_loop [OF wf reads, of x_cursor BY]
  obtain img' where r: "for_each (rect BW BH) (\<lambda>p drawn.
                    and_then (read_at monochrome_pixels (off + unat (fst p + snd p * BW)))
                      (set_pixel drawn (x_cursor + fst p) (snd p + BY))) img = Inr img'"
    and wf': "wf_image img'" and w': "width img' = width img" and h': "height img' = height img"
    and t': "text' img' = text' img"
    and p': "\<forall>X Y. X < width img \<and> Y < height img \<longrightarrow>
                 pixels img' ! pixel_index img X Y
                 = (if (X - x_cursor, Y - BY) \<in> set (rect BW BH)
                    then attenuate (monochrome_pixels ! (off + unat ((X - x_cursor) + (Y - BY) * BW)))
                    else pixels img ! pixel_index img X Y)"
    by blast
  have run: "draw_character monochrome_pixels font c (img, x_cursor)
             = Inr (img', x_cursor + scast (swap_endian16 (character_width c)))"
    using True r
    unfolding draw_character_def glyph_drawn_def Let_def rect_def BW_def BH_def BY_def off_def
    by (simp add: for_each_nested)
  have pix: "\<forall>X Y. X < width img \<and> Y < height img \<longrightarrow>
                 pixels img' ! pixel_index img X Y
                 = (if glyph_drawn c \<and> X - x_cursor < BW \<and> Y - BY < BH
                    then attenuate (monochrome_pixels !
                           (off + unat (X - x_cursor) + unat (Y - BY) * unat BW))
                    else pixels img ! pixel_index img X Y)"
  proof (intro allI impI)
    fix X Y assume b: "X < width img \<and> Y < height img"
    show "pixels img' ! pixel_index img X Y
                 = (if glyph_drawn c \<and> X - x_cursor < BW \<and> Y - BY < BH
                    then attenuate (monochrome_pixels !
                           (off + unat (X - x_cursor) + unat (Y - BY) * unat BW))
                    else pixels img ! pixel_index img X Y)"
    proof (cases "X - x_cursor < BW \<and> Y - BY < BH")
      case True
      then have "unat ((X - x_cursor) + (Y - BY) * BW) = unat (X - x_cursor) + unat (Y - BY) * unat BW"
        using rect_source_index(1) [OF bw(2) bh(2)] by simp
      then show ?thesis
        using p' [rule_format, OF b] True \<open>glyph_drawn c\<close> by (simp add: set_rect add.assoc)
    next
      case False
      then show ?thesis
        using p' [rule_format, OF b] by (auto simp: set_rect)
    qed
  qed
  show ?thesis
    using run wf' w' h' t' True pix by (intro exI [of _ img']) simp
qed

lemma same_shape_refl [simp]: "same_shape a a"
  by (simp add: same_shape_def)

lemma same_shape_trans: "same_shape a b \<Longrightarrow> same_shape b c \<Longrightarrow> same_shape a c"
  by (simp add: same_shape_def)

lemma for_each_preserves:
  assumes "\<And>i s s'. i \<in> set xs \<Longrightarrow> Q s \<Longrightarrow> body i s = Inr s' \<Longrightarrow> Q s'"
    and "Q s" and "for_each xs body s = Inr s'"
  shows "Q s'"
  using assms
proof (induction xs arbitrary: s)
  case Nil
  then show ?case by simp
next
  case (Cons i xs)
  from Cons.prems(3) obtain s1 where b: "body i s = Inr s1" and r: "for_each xs body s1 = Inr s'"
    by (auto simp: and_then_eq_Inr)
  have q1: "Q s1" using Cons.prems(1) [of i s s1] Cons.prems(2) b by simp
  show ?case
  proof (rule Cons.IH [OF _ q1 r])
    fix j t t' assume "j \<in> set xs" "Q t" "body j t = Inr t'"
    then show "Q t'" using Cons.prems(1) [of j t t'] by simp
  qed
qed

lemma set_pixel_shape:
  "set_pixel img X Y v = Inr img' \<Longrightarrow> same_shape img' img"
  by (auto simp: set_pixel_def Let_def same_shape_def split: if_splits)

lemma glyph_rows_shape:
  assumes "for_each ys (\<lambda>y. for_each xs (\<lambda>x d. and_then (R x y) (set_pixel d (fx x) (fy y)))) img
           = Inr img'"
  shows "same_shape img' img"
proof -
  have "for_each (concat (map (\<lambda>y. map (\<lambda>x. (x, y)) xs) ys))
          (\<lambda>p d. and_then (R (fst p) (snd p)) (set_pixel d (fx (fst p)) (fy (snd p)))) img = Inr img'"
    using assms by (simp add: for_each_nested)
  then show ?thesis
  proof (rule for_each_preserves [where Q = "\<lambda>s. same_shape s img", rotated 2])
    fix p d d'
    assume "same_shape d img"
      and "and_then (R (fst p) (snd p)) (set_pixel d (fx (fst p)) (fy (snd p))) = Inr d'"
    then show "same_shape d' img"
      by (auto simp: and_then_eq_Inr dest!: set_pixel_shape intro: same_shape_trans)
  qed simp
qed

lemma draw_character_shape:
  assumes "draw_character pool font c (img, xc) = Inr (img', xc')"
  shows "same_shape img' img" and "xc' = xc + scast (swap_endian16 (character_width c))"
  using assms
  by (auto simp: draw_character_def Let_def and_then_eq_Inr split: if_splits
      dest: glyph_rows_shape)

lemma fold_advance:
  "fold (\<lambda>c w. w + scast (swap_endian16 (character_width c))) cs (w0 :: u32)
   = w0 + sum_list (map advance cs)"
  by (induction cs arbitrary: w0) (simp_all add: advance_def add.assoc)

lemma draw_text_unfold:
  "draw_text text pool characters font
   = and_then (for_each (map characters (c_str text)) (draw_character pool font)
                 (blank_canvas text characters font, 0))
       (\<lambda>state. Inr (fst state))"
  by (simp add: draw_text_def blank_canvas_def Let_def fold_advance comp_def)

lemma draw_text_shape:
  assumes "draw_text text pool characters font = Inr img"
  shows "same_shape img (blank_canvas text characters font)"
proof -
  from assms obtain st where
    r: "for_each (map characters (c_str text)) (draw_character pool font)
          (blank_canvas text characters font, 0) = Inr st" and i: "img = fst st"
    unfolding draw_text_unfold by (auto simp: and_then_eq_Inr)
  have "same_shape (fst st) (blank_canvas text characters font)"
  proof (rule for_each_preserves
      [where Q = "\<lambda>s. same_shape (fst s) (blank_canvas text characters font)", OF _ _ r])
    fix c s s'
    assume "same_shape (fst s) (blank_canvas text characters font)"
      and "draw_character pool font c s = Inr s'"
    then show "same_shape (fst s') (blank_canvas text characters font)"
      using draw_character_shape(1) [of pool font c "fst s" "snd s" "fst s'" "snd s'"]
      by (auto intro: same_shape_trans)
  qed simp
  then show ?thesis using i by simp
qed

lemma draw_text_total:
  assumes fit: "wf_image (blank_canvas text characters font)"
    and pool: "\<forall>c \<in> set (c_str text). glyph_in_pool pool (characters c)"
  shows "\<exists>img. draw_text text pool characters font = Inr img"
proof -
  have "\<And>cs s. wf_image (fst s) \<Longrightarrow> \<forall>c \<in> set cs. glyph_in_pool pool c \<Longrightarrow>
          \<exists>s'. for_each cs (draw_character pool font) s = Inr s' \<and> wf_image (fst s')"
  proof -
    fix cs :: "FontCharacter list" and s :: "MonochromeImage \<times> u32"
    show "wf_image (fst s) \<Longrightarrow> \<forall>c \<in> set cs. glyph_in_pool pool c \<Longrightarrow>
          \<exists>s'. for_each cs (draw_character pool font) s = Inr s' \<and> wf_image (fst s')"
    proof (induction cs arbitrary: s)
      case Nil
      then show ?case by simp
    next
      case (Cons c cs)
      from draw_character_effect [of "fst s" pool c font "snd s"] Cons.prems
      obtain img' where "draw_character pool font c s
            = Inr (img', snd s + scast (swap_endian16 (character_width c)))" "wf_image img'"
        by auto
      then show ?case
        using Cons.IH [of "(img', snd s + scast (swap_endian16 (character_width c)))"] Cons.prems(2)
        by simp
    qed
  qed
  from this [of "(blank_canvas text characters font, 0)" "map characters (c_str text)"] fit pool
  show ?thesis
    unfolding draw_text_unfold by (auto simp: and_then_eq_Inr)
qed

lemma replicate_numeral_Cons:
  "replicate (numeral k) x = x # replicate (pred_numeral k) x"
  by (simp add: numeral_eq_Suc)

lemmas sample_font_defs =
  sample_pool_def sample_characters_def sample_font_def glyph_A_def glyph_B_def no_glyph_def
  swap_endian16_def swap_endian32_def

lemma draw_text_ABA:
  "draw_text [0x41, 0x42, 0x41] sample_pool sample_characters sample_font
   = Inr \<lparr>width = 7, height = 3,
          pixels = [191, 0, 0, 0, 0, 191, 0, 191, 191, 191, 191, 0, 191, 191, 0, 0, 0, 0, 0, 0, 0],
          text' = [0x41, 0x42, 0x41]\<rparr>"
  by (simp add: draw_text_def draw_character_def set_pixel_def c_str_def sample_font_defs
      range32_def read_at_def upt_rec replicate_numeral_Cons)

lemma draw_text_A:
  "draw_text [0x41] sample_pool sample_characters sample_font
   = Inr \<lparr>width = 2, height = 3, pixels = [191, 0, 191, 191, 0, 0], text' = [0x41]\<rparr>"
  by (simp add: draw_text_def draw_character_def set_pixel_def c_str_def sample_font_defs
      range32_def read_at_def upt_rec replicate_numeral_Cons)

lemma draw_text_B:
  "draw_text [0x42] sample_pool sample_characters sample_font
   = Inr \<lparr>width = 3, height = 3, pixels = [0, 0, 0, 191, 191, 0, 0, 0, 0], text' = [0x42]\<rparr>"
  by (simp add: draw_text_def draw_character_def set_pixel_def c_str_def sample_font_defs
      range32_def read_at_def upt_rec replicate_numeral_Cons)

lemma draw_text_stops_at_zero:
  "draw_text [0x41, 0, 0x42] sample_pool sample_characters sample_font
   = Inr \<lparr>width = 2, height = 3, pixels = [191, 0, 191, 191, 0, 0], text' = [0x41]\<rparr>"
  by (simp add: draw_text_def draw_character_def set_pixel_def c_str_def sample_font_defs
      range32_def read_at_def upt_rec replicate_numeral_Cons)

lemma c_str_singleton: "c \<in> set (c_str text) \<Longrightarrow> c_str [c] = [c]"
  by (auto simp: c_str_def dest: set_takeWhileD)

lemma draw_text_single_width:
  assumes "c \<in> set (c_str text)" "draw_text [c] pool characters font = Inr g"
  shows "width g = scast (swap_endian16 (character_width (characters c)))"
  using draw_text_shape [OF assms(2)] c_str_singleton [OF assms(1)]
  by (simp add: same_shape_def blank_canvas_def advance_def Let_def)

lemma attenuate_three_quarters: "unat (attenuate v) = unat v * 3 div 4"
proof -
  have v: "unat v < 256" using unsigned_less [of v, where ?'a = nat] by simp
  have a: "unat (ucast v :: u32) = unat v"
    using v by (simp add: unsigned_ucast_eq take_bit_nat_eq_self)
  have b: "unat ((ucast v :: u32) * 3) = unat v * 3"
    using v a unat_mult_lem [of "ucast v :: u32" 3] by simp
  have c: "unat ((ucast v :: u32) * 3 div 4) = unat v * 3 div 4"
    by (simp add: unat_div b)
  have "unat v * 3 div 4 < 256" using v by simp
  then show ?thesis
    unfolding attenuate_def using c by (simp add: unsigned_ucast_eq take_bit_nat_eq_self)
qed

lemma draw_character_no_glyph:
  "draw_character monochrome_pixels font no_glyph (img, x_cursor) = Inr (img, x_cursor)"
  by (simp add: draw_character_def no_glyph_def swap_endian16_def)

lemma sample_glyphs_in_pool:
  "glyph_in_pool sample_pool glyph_A" "glyph_in_pool sample_pool glyph_B"
  "glyph_in_pool sample_pool no_glyph"
  by (simp_all add: glyph_in_pool_def glyph_drawn_def sample_font_defs)

lemma sample_blank_canvas:
  "blank_canvas [0x41, 0x42, 0x41] sample_characters sample_font = sample_canvas"
  by (simp add: blank_canvas_def sample_canvas_def c_str_def advance_def sample_font_defs)

lemma wf_sample_canvas: "wf_image sample_canvas"
  by (simp add: wf_image_def sample_canvas_def)

lemma draw_B_on_canvas:
  "draw_character sample_pool sample_font glyph_B (sample_canvas, 2) = Inr (image_B_on_canvas, 5)"
  by (simp add: draw_character_def set_pixel_def sample_canvas_def image_B_on_canvas_def
      sample_font_defs range32_def read_at_def upt_rec replicate_numeral_Cons)

lemma glyph_covers_iff:
  "glyph_covers font c x_cursor X Y \<longleftrightarrow>
     glyph_drawn c \<and> (\<exists>x y. x < glyph_width c \<and> y < glyph_height c
                          \<and> X = x_cursor + x \<and> Y = y + glyph_top font c)"
proof
  assume a: "glyph_covers font c x_cursor X Y"
  then have "X - x_cursor < glyph_width c \<and> Y - glyph_top font c < glyph_height c
      \<and> X = x_cursor + (X - x_cursor) \<and> Y = (Y - glyph_top font c) + glyph_top font c"
    by (simp add: glyph_covers_def)
  then show "glyph_drawn c \<and> (\<exists>x y. x < glyph_width c \<and> y < glyph_height c
                          \<and> X = x_cursor + x \<and> Y = y + glyph_top font c)"
    using a unfolding glyph_covers_def by blast
next
  assume "glyph_drawn c \<and> (\<exists>x y. x < glyph_width c \<and> y < glyph_height c
                          \<and> X = x_cursor + x \<and> Y = y + glyph_top font c)"
  then show "glyph_covers font c x_cursor X Y"
    by (auto simp: glyph_covers_def)
qed

lemma draw_characters_pixels:
  assumes "wf_image img" and "\<forall>c \<in> set cs. glyph_in_pool monochrome_pixels c"
  shows "\<exists>img'. for_each cs (draw_character monochrome_pixels font) (img, x_cursor)
                  = Inr (img', x_cursor + sum_list (map advance cs))
           \<and> wf_image img' \<and> width img' = width img \<and> height img' = height img
           \<and> text' img' = text' img
           \<and> (\<forall>X Y. X < width img \<and> Y < height img \<longrightarrow>
                 pixels img' ! pixel_index img X Y
                 = pixel_after monochrome_pixels font cs x_cursor
                     (pixels img ! pixel_index img X Y) X Y)"
  using assms
proof (induction cs arbitrary: img x_cursor)
  case Nil
  then show ?case by simp
next
  case (Cons c cs)
  have pool: "glyph_in_pool monochrome_pixels c" using Cons.prems(2) by simp
  from draw_character_effect [OF Cons.prems(1) pool, of font x_cursor]
  obtain img1 where r1: "draw_character monochrome_pixels font c (img, x_cursor)
                  = Inr (img1, x_cursor + advance c)"
    and wf1: "wf_image img1" and w1: "width img1 = width img" and h1: "height img1 = height img"
    and t1: "text' img1 = text' img"
    and p1: "\<forall>X Y. X < width img \<and> Y < height img \<longrightarrow>
                 pixels img1 ! pixel_index img X Y
                 = (if glyph_covers font c x_cursor X Y
                    then attenuate (monochrome_pixels ! glyph_source font c x_cursor X Y)
                    else pixels img ! pixel_index img X Y)"
    unfolding advance_def glyph_covers_def glyph_source_def glyph_width_def glyph_height_def
      glyph_top_def glyph_offset_def
    by blast
  have "\<forall>c \<in> set cs. glyph_in_pool monochrome_pixels c" using Cons.prems(2) by simp
  from Cons.IH [OF wf1 this, of "x_cursor + advance c"]
  obtain img' where r: "for_each cs (draw_character monochrome_pixels font) (img1, x_cursor + advance c)
                  = Inr (img', x_cursor + advance c + sum_list (map advance cs))"
    and wf': "wf_image img'" and w': "width img' = width img1" and h': "height img' = height img1"
    and t': "text' img' = text' img1"
    and p': "\<forall>X Y. X < width img1 \<and> Y < height img1 \<longrightarrow>
                 pixels img' ! pixel_index img1 X Y
                 = pixel_after monochrome_pixels font cs (x_cursor + advance c)
                     (pixels img1 ! pixel_index img1 X Y) X Y"
    by blast
  have "\<forall>X Y. X < width img \<and> Y < height img \<longrightarrow>
                 pixels img' ! pixel_index img X Y
                 = pixel_after monochrome_pixels font (c # cs) x_cursor
                     (pixels img ! pixel_index img X Y) X Y"
    using p' p1 w1 h1 by (simp add: pixel_index_width [OF w1])
  then show ?case
    using r1 r wf' w' h' t' w1 h1 t1 by (intro exI [of _ img']) (simp add: add.assoc)
qed

lemma blank_canvas_pixel:
  assumes "wf_image (blank_canvas str characters font)"
    and "X < width (blank_canvas str characters font)" "Y < height (blank_canvas str characters font)"
  shows "pixels (blank_canvas str characters font) ! pixel_index (blank_canvas str characters font) X Y = 0"
proof -
  have "pixel_index (blank_canvas str characters font) X Y
        < length (pixels (blank_canvas str characters font))"
    by (rule index_in_bounds(2) [OF assms])
  then show ?thesis
    by (simp add: blank_canvas_def Let_def)
qed

lemma draw_text_pixels:
  assumes wf: "wf_image (blank_canvas str characters font)"
    and pool: "\<forall>c \<in> set (c_str str). glyph_in_pool monochrome_pixels (characters c)"
  shows "\<exists>img. draw_text str monochrome_pixels characters font = Inr img
           \<and> same_shape img (blank_canvas str characters font)
           \<and> (\<forall>X Y. X < width img \<and> Y < height img \<longrightarrow>
                 pixels img ! pixel_index img X Y
                 = pixel_after monochrome_pixels font (map characters (c_str str)) 0 0 X Y)"
proof -
  let ?canvas = "blank_canvas str characters font"
  have "\<forall>c \<in> set (map characters (c_str str)). glyph_in_pool monochrome_pixels c"
    using pool by simp
  from draw_characters_pixels [OF wf this, of font 0]
  obtain img' xc where r: "for_each (map characters (c_str str)) (draw_character monochrome_pixels font)
                    (?canvas, 0) = Inr (img', xc)"
    and wf': "wf_image img'" and w: "width img' = width ?canvas" and h: "height img' = height ?canvas"
    and t: "text' img' = text' ?canvas"
    and p: "\<forall>X Y. X < width ?canvas \<and> Y < height ?canvas \<longrightarrow>
                 pixels img' ! pixel_index ?canvas X Y
                 = pixel_after monochrome_pixels font (map characters (c_str str)) 0
                     (pixels ?canvas ! pixel_index ?canvas X Y) X Y"
    by blast
  have run: "draw_text str monochrome_pixels characters font = Inr img'"
    unfolding draw_text_unfold using r by simp
  have shape: "same_shape img' ?canvas"
    using wf' wf w h t by (simp add: same_shape_def wf_image_def)
  have "\<forall>X Y. X < width img' \<and> Y < height img' \<longrightarrow>
                 pixels img' ! pixel_index img' X Y
                 = pixel_after monochrome_pixels font (map characters (c_str str)) 0 0 X Y"
    using p w h blank_canvas_pixel [OF wf] by (simp add: pixel_index_width [OF w])
  then show ?thesis
    using run shape by blast
qed

lemma pixel_after_no_glyph:
  "pixel_after monochrome_pixels font (no_glyph # rest) x_cursor v X Y
   = pixel_after monochrome_pixels font rest x_cursor v X Y"
  by (simp add: glyph_covers_def glyph_drawn_def advance_def no_glyph_def swap_endian16_def)

lemma sample_chars_in_pool:
  "\<forall>c \<in> set (c_str [0x41, 0x42, 0x41 :: u8]). glyph_in_pool sample_pool (sample_characters c)"
  using sample_glyphs_in_pool by (simp add: c_str_def sample_characters_def)

lemma sample_chars_map:
  "map sample_characters (c_str [0x41, 0x42, 0x41]) = [glyph_A, glyph_B, glyph_A]"
  by (simp add: c_str_def sample_characters_def)

lemma sample_pixel_after:
  "pixel_after sample_pool sample_font [glyph_A, glyph_B, glyph_A] 0 0 5 0 = 191"
  "pixel_after sample_pool sample_font [glyph_A, glyph_B, glyph_A] 0 0 3 1 = 191"
  "pixel_after sample_pool sample_font [glyph_A, glyph_B, glyph_A] 0 0 1 0 = 0"
  "pixel_after sample_pool sample_font [glyph_A, glyph_B, glyph_A] 0 0 4 1 = 0"
  by (simp_all add: glyph_covers_def glyph_source_def glyph_drawn_def glyph_width_def
      glyph_height_def glyph_top_def glyph_offset_def advance_def attenuate_def sample_font_defs)

section \<open>Properties of the calibrator\<close>

text \<open>The float \<open>0.85F\<close> is the least float above 85/100, so a float is below the one
  exactly when it is below the other.\<close>

lemma float_0_85_value: "float_0_85 = 14260634 / 16777216"
  unfolding float_0_85_def by code_simp

lemma f32_grid_below_one:
  assumes q: "0 < q" and e: "ilog2 q = - 1"
  shows "\<exists>m. f32 q = of_int m / 16777216"
proof -
  have "f32 q = of_int (round_half_even (q / 2 powi (ilog2 q - 23))) * 2 powi (ilog2 q - 23)"
    by (rule f32_pos_eq [OF q])
  also have "(2::rat) powi (ilog2 q - 23) = 1 / 16777216"
    unfolding e by (simp add: power_int_minus)
  finally show ?thesis by auto
qed

lemma f32_below_threshold:
  assumes "0 \<le> q"
  shows "f32 q < float_0_85 \<longleftrightarrow> f32 q < 85 / 100"
proof
  assume "f32 q < 85 / 100"
  then show "f32 q < float_0_85"
    unfolding float_0_85_value by simp
next
  assume lt: "f32 q < float_0_85"
  show "f32 q < 85 / 100"
  proof (cases "q = 0")
    case True
    then show ?thesis by simp
  next
    case False
    then have q: "0 < q" using assms by simp
    have "(2::rat) powi ilog2 q < 2 powi 0"
      using f32_bounds(1) [OF q] lt unfolding float_0_85_value by simp
    then have neg: "ilog2 q < 0"
      by (metis linorder_not_le one_le_numeral power_int_increasing)
    show ?thesis
    proof (cases "ilog2 q = - 1")
      case True
      from f32_grid_below_one [OF q True] obtain m where m: "f32 q = of_int m / 16777216"
        by blast
      have "(of_int m :: rat) < of_int 14260634"
        using lt unfolding m float_0_85_value by simp
      then have "m \<le> 14260633"
        by simp
      then have "(of_int m :: rat) \<le> 14260633"
        by (metis of_int_le_iff of_int_numeral)
      then show ?thesis
        unfolding m by simp
    next
      case False
      then have "ilog2 q + 1 \<le> - 1" using neg by linarith
      then have "(2::rat) powi (ilog2 q + 1) \<le> 2 powi (- 1)"
        by (intro power_int_increasing) simp_all
      then have "f32 q \<le> 1 / 2"
        using f32_bounds(2) [OF q] by (simp add: power_int_minus)
      then show ?thesis by simp
    qed
  qed
qed

lemma match_is_float:
  assumes "match buf W t x y = Inr v"
  shows "\<exists>q\<ge>0. v = f32 q"
proof (cases "x + width t > W \<or> y + height t > 480 \<or> width t = 0 \<or> height t = 0")
  case True
  then have "v = 0" using assms by (simp add: match_def)
  then show ?thesis by (intro exI [of _ 0]) simp
next
  case False
  with assms obtain hits where
    "float_div (u32_to_float hits) (u32_to_float (height t * width t)) = Inr v"
    by (auto simp: match_def and_then_eq_Inr)
  then have "v = f32 (u32_to_float hits / u32_to_float (height t * width t))"
    by (auto simp: float_div_def split: if_splits)
  moreover have "0 \<le> u32_to_float hits / u32_to_float (height t * width t)"
    unfolding u32_to_float_def by (intro divide_nonneg_nonneg f32_nonneg of_nat_0_le_iff)
  ultimately show ?thesis by blast
qed

text \<open>The scan keeps the first position of the highest score.\<close>

lemma scan_first:
  assumes "\<forall>p \<in> set ps. M p = Inr (s p)"
  shows "for_each ps (\<lambda>p found. and_then (M p) (\<lambda>match_percent.
                  Inr (if match_percent > fst found then (match_percent, Some p) else found)))
             (m0 :: rat, l0)
           = Inr (Max (insert m0 (s ` set ps)),
                  if Max (insert m0 (s ` set ps)) = m0 then l0
                  else find (\<lambda>p. s p = Max (insert m0 (s ` set ps))) ps)"
  using scan_first_payload [OF assms, where g = "\<lambda>p. p"]
  by (simp add: option.map_ident)

lemma find_header_text_exact:
  assumes draw: "draw_text str font_pixels characters font = Inr drawn"
    and ms: "\<forall>p \<in> set (scan_window W font min_x min_y).
               match buf W (thresholded drawn) (fst p) (snd p) = Inr (s p)"
  defines "best \<equiv> Max (insert 0 (s ` set (scan_window W font min_x min_y)))"
  shows "find_header_text font_pixels characters font buf W str min_x min_y
        = (if best < 85 / 100
           then Inl (ExitFailure (c_str str)
                  (if best = 0 then None else find (\<lambda>p. s p = best) (scan_window W font min_x min_y))
                  best)
           else case find (\<lambda>p. s p = best) (scan_window W font min_x min_y) of
                  None \<Rightarrow> Inl Uninitialized | Some p \<Rightarrow> Inr p)"
proof -
  let ?win = "scan_window W font min_x min_y"
  let ?M = "\<lambda>p. match buf W (thresholded drawn) (fst p) (snd p)"
  let ?l = "if best = 0 then None else find (\<lambda>p. s p = best) ?win"
  have r: "for_each ?win (\<lambda>p found. and_then (?M p) (\<lambda>match_percent.
                  Inr (if match_percent > fst found then (match_percent, Some p) else found)))
             (0, None) = Inr (best, ?l)"
    using scan_first [of ?win ?M s 0 None] ms unfolding best_def by simp
  have loop: "for_each (range32 min_y (min_y + scast (line_height_search font))) (\<lambda>y.
            for_each (range32 min_x W) (\<lambda>x found.
              and_then (match buf W (thresholded drawn) x y) (\<lambda>match_percent.
                Inr (if match_percent > fst found then (match_percent, Some (x, y)) else found))))
            (0, None) = Inr (best, ?l)"
    using r unfolding scan_window_def for_each_nested prod.collapse .
  have fl: "\<exists>q\<ge>0. best = f32 q"
  proof (cases "best = 0")
    case True
    then show ?thesis by (intro exI [of _ 0]) simp
  next
    case False
    have "best \<in> insert 0 (s ` set ?win)"
      unfolding best_def by (intro Max_in) simp_all
    with False obtain p where "p \<in> set ?win" "s p = best" by auto
    then show ?thesis using ms match_is_float [of buf W "thresholded drawn" "fst p" "snd p" best]
      by auto
  qed
  then have thr: "best < float_0_85 \<longleftrightarrow> best < 85 / 100"
    using f32_below_threshold by auto
  show ?thesis
    unfolding find_header_text_def using draw loop thr
    by (simp add: Let_def thresholded_def)
qed

lemma find_header_text_in_window:
  assumes "find_header_text font_pixels characters font buf W str min_x min_y = Inr p"
  shows "p \<in> set (scan_window W font min_x min_y)"
proof -
  let ?win = "scan_window W font min_x min_y"
  from assms obtain drawn found where
    loop: "for_each (range32 min_y (min_y + scast (line_height_search font))) (\<lambda>y.
            for_each (range32 min_x W) (\<lambda>x found.
              and_then (match buf W (thresholded drawn) x y) (\<lambda>match_percent.
                Inr (if match_percent > fst found then (match_percent, Some (x, y)) else found))))
            (0, None) = Inr found"
    and res: "snd found = Some p"
    unfolding find_header_text_def
    by (auto simp: and_then_eq_Inr Let_def thresholded_def split: if_splits option.splits)
  have r: "for_each ?win (\<lambda>q found. and_then (match buf W (thresholded drawn) (fst q) (snd q))
              (\<lambda>match_percent.
                  Inr (if match_percent > fst found then (match_percent, Some q) else found)))
             (0, None) = Inr found"
    using loop unfolding scan_window_def for_each_nested prod.collapse .
  have "case snd found of None \<Rightarrow> True | Some q \<Rightarrow> q \<in> set ?win"
    by (rule for_each_preserves [OF _ _ r]) (auto simp: and_then_eq_Inr split: if_splits)
  then show ?thesis
    using res by simp
qed

lemma scan_window_iff:
  "(x, y) \<in> set (scan_window W font min_x min_y)
   \<longleftrightarrow> min_x \<le> x \<and> x < W \<and> min_y \<le> y \<and> y < min_y + scast (line_height_search font)"
  by (auto simp: scan_window_def set_range32)

lemma find_headers_Inr_iff:
  "find_headers font_pixels characters font buf W = Inr a \<longleftrightarrow>
     find_header_text font_pixels characters font buf W str_Name 120 120
       = Inr (name_x a, name_y a)
   \<and> find_header_text font_pixels characters font buf W str_Score (name_x a) (name_y a - 10)
       = Inr (score_x a, score_y a)
   \<and> find_header_text font_pixels characters font buf W str_Kills (score_x a) (name_y a - 10)
       = Inr (kills_x a, kills_y a)
   \<and> find_header_text font_pixels characters font buf W str_Assists (kills_x a) (name_y a - 10)
       = Inr (assists_x a, assists_y a)
   \<and> find_header_text font_pixels characters font buf W str_Deaths (assists_x a) (name_y a - 10)
       = Inr (deaths_x a, deaths_y a)"
  by (cases a) (auto simp: find_headers_def Let_def and_then_eq_Inr)

lemma find_headers_Inl_iff:
  "find_headers font_pixels characters font buf W = Inl e \<longleftrightarrow>
     find_header_text font_pixels characters font buf W str_Name 120 120 = Inl e
   \<or> (\<exists>name. find_header_text font_pixels characters font buf W str_Name 120 120 = Inr name
        \<and> (find_header_text font_pixels characters font buf W str_Score (fst name) (snd name - 10)
             = Inl e
         \<or> (\<exists>score. find_header_text font_pixels characters font buf W str_Score (fst name)
                        (snd name - 10) = Inr score
              \<and> (find_header_text font_pixels characters font buf W str_Kills (fst score)
                    (snd name - 10) = Inl e
               \<or> (\<exists>kills. find_header_text font_pixels characters font buf W str_Kills
                              (fst score) (snd name - 10) = Inr kills
                    \<and> (find_header_text font_pixels characters font buf W str_Assists (fst kills)
                          (snd name - 10) = Inl e
                     \<or> (\<exists>assists. find_header_text font_pixels characters font buf W
                                      str_Assists (fst kills) (snd name - 10) = Inr assists
                          \<and> find_header_text font_pixels characters font buf W str_Deaths
                               (fst assists) (snd name - 10) = Inl e)))))))"
  unfolding find_headers_def Let_def and_then_def
  by (simp split: sum.splits)

text \<open>The matcher and the header search on the sample screenshots.\<close>

lemma length_render [simp]: "length (render f w) = w * 480"
  by (simp add: render_def)

lemma render_nth: "i < w * 480 \<Longrightarrow> render f w ! i = f (i mod w) (i div w)"
  by (simp add: render_def)

lemma render_at:
  assumes "X < w" "Y < 480"
  shows "X + Y * w < w * 480" and "render f w ! (X + Y * w) = f X Y"
proof -
  have "X + Y * w < w * (Y + 1)"
    using assms(1) by (simp add: algebra_simps)
  also have "\<dots> \<le> w * 480"
    using assms(2) by (intro mult_le_mono2) simp
  finally show a: "X + Y * w < w * 480" .
  show "render f w ! (X + Y * w) = f X Y"
    using a assms(1) by (simp add: render_nth)
qed

lemma rect_4_1: "rect 4 1 = [(0, 0), (1, 0), (2, 0), (3, 0)]"
  by (simp add: rect_def range32_def upt_rec)

lemma f32_quarters: "n \<le> 4 \<Longrightarrow> f32 (of_nat n / 4) = of_nat n / 4"
proof -
  assume n: "n \<le> 4"
  show ?thesis
  proof (cases "n = 0")
    case True
    then show ?thesis by simp
  next
    case False
    then show ?thesis
      using n f32_exact [of "int n" "- 2"] by (simp add: power_int_minus)
  qed
qed

lemma match_render_row:
  fixes x y :: u32
  assumes t: "width t = 4" "height t = 1" "pixels t = [a, b, c, d]"
    and x: "x \<le> 136" and y: "y < 480"
  shows "match (render f 140) 140 t x y
         = Inr (of_nat (length (filter id
                  [pixel_hit a (f (unat x) (unat y)), pixel_hit b (f (unat x + 1) (unat y)),
                   pixel_hit c (f (unat x + 2) (unat y)), pixel_hit d (f (unat x + 3) (unat y))])) / 4)"
proof -
  have ux: "unat x \<le> 136" and uy: "unat y < 480"
    using x y by (simp_all add: word_le_nat_alt word_less_nat_alt)
  have x4: "unat (x + 4) = unat x + 4" and y1: "unat (y + 1) = unat y + 1"
    using ux uy unat_add_lem [of x 4] unat_add_lem [of y 1] by simp_all
  have inside: "\<not> (x + width t > 140 \<or> y + height t > 480 \<or> width t = 0 \<or> height t = 0)"
    using x4 y1 ux uy by (simp add: t word_less_nat_alt)
  have reads: "reads_in_bounds (render f 140) 140 t x y"
    using ux uy by (intro reads_in_bounds_wf) (simp_all add: t)
  have ym: "unat (y * 140) = unat y * 140"
    using uy unat_mult_lem [of y 140] by simp
  have idx: "unat (k + x + y * 140) = (unat x + unat k) + unat y * 140"
    if "unat k < 4" for k :: u32
  proof -
    have "unat (k + x) = unat k + unat x"
      using that ux unat_add_lem [of k x] by simp
    then show ?thesis
      using that ux uy ym unat_add_lem [of "k + x" "y * 140"] by simp
  qed
  have px: "render f 140 ! unat (k + x + y * 140) = f (unat x + unat k) (unat y)"
    if "unat k < 4" for k :: u32
    using that ux uy render_at(2) [of "unat x + unat k" 140 "unat y" f] by (simp add: idx)
  have hc: "hit_count (render f 140) 140 t x y
        = length (filter id
                  [pixel_hit a (f (unat x) (unat y)), pixel_hit b (f (unat x + 1) (unat y)),
                   pixel_hit c (f (unat x + 2) (unat y)), pixel_hit d (f (unat x + 3) (unat y))])"
    using px [of 0] px [of 1] px [of 2] px [of 3]
    by (simp add: hit_count_def t rect_4_1 pixel_hit_iff)
  have le: "hit_count (render f 140) 140 t x y \<le> 4"
    using hit_count_le [of "render f 140" 140 t x y] by (simp add: t)
  have "match (render f 140) 140 t x y
        = Inr (f32 (f32 (of_nat (hit_count (render f 140) 140 t x y)) / f32 (of_nat (unat (height t) * unat (width t)))))"
    using inside reads by (intro match_inside(1)) (simp_all add: t)
  also have "\<dots> = Inr (of_nat (hit_count (render f 140) 140 t x y) / 4)"
    using le f32_quarters [of "hit_count (render f 140) 140 t x y"]
      f32_of_nat [of "hit_count (render f 140) 140 t x y"]
    by (simp add: t f32_numeral)
  finally show ?thesis
    by (simp only: hc)
qed

lemma match_render_edge:
  fixes x :: u32
  assumes "width t = 4" "136 < x" "x < 140"
  shows "match buf 140 t x y = Inr 0"
proof -
  have "136 < unat x" "unat x < 140"
    using assms by (simp_all add: word_less_nat_alt)
  then have "unat (x + 4) = unat x + 4"
    using unat_add_lem [of x 4] by simp
  then have "x + width t > 140"
    using \<open>136 < unat x\<close> by (simp add: assms(1) word_less_nat_alt)
  then show ?thesis
    by (simp add: match_outside)
qed

lemmas calib_font_defs =
  calib_pool_def calib_characters_def calib_font_def ink_glyph_def wide_glyph_def space_glyph_def
  no_glyph_def swap_endian16_def swap_endian32_def

lemma draw_Name:
  "draw_text str_Name calib_pool calib_characters calib_font
   = Inr \<lparr>width = 4, height = 1, pixels = [191, 191, 0, 191], text' = str_Name\<rparr>"
  by (simp add: draw_text_def draw_character_def set_pixel_def c_str_def calib_font_defs
      str_Name_def range32_def read_at_def upt_rec replicate_numeral_Cons)

lemma draw_Score:
  "draw_text str_Score calib_pool calib_characters calib_font
   = Inr \<lparr>width = 4, height = 1, pixels = [191, 0, 0, 191], text' = str_Score\<rparr>"
  by (simp add: draw_text_def draw_character_def set_pixel_def c_str_def calib_font_defs
      str_Score_def range32_def read_at_def upt_rec replicate_numeral_Cons)

lemma draw_Kills:
  "draw_text str_Kills calib_pool calib_characters calib_font
   = Inr \<lparr>width = 4, height = 1, pixels = [191, 0, 191, 191], text' = str_Kills\<rparr>"
  by (simp add: draw_text_def draw_character_def set_pixel_def c_str_def calib_font_defs
      str_Kills_def range32_def read_at_def upt_rec replicate_numeral_Cons)

lemma draw_Assists:
  "draw_text str_Assists calib_pool calib_characters calib_font
   = Inr \<lparr>width = 4, height = 1, pixels = [191, 191, 0, 191], text' = str_Assists\<rparr>"
  by (simp add: draw_text_def draw_character_def set_pixel_def c_str_def calib_font_defs
      str_Assists_def range32_def read_at_def upt_rec replicate_numeral_Cons)

lemma draw_Deaths:
  "draw_text str_Deaths calib_pool calib_characters calib_font
   = Inr \<lparr>width = 4, height = 1, pixels = [191, 191, 191, 191], text' = str_Deaths\<rparr>"
  by (simp add: draw_text_def draw_character_def set_pixel_def c_str_def calib_font_defs
      str_Deaths_def range32_def read_at_def upt_rec replicate_numeral_Cons)

lemma calib_line_height: "line_height_search calib_font = 1"
  by (simp add: line_height_search_def calib_font_def swap_endian16_def)

lemmas calib_eval =
  find_header_text_def Let_def filter_monochrome.simps MINIMUM_def calib_line_height
  range32_def upt_rec inked_screen_def match_render_row match_render_edge
  inked_pixels_def header_pixels_def pixel_hit_iff float_0_85_value

lemma find_Name:
  "find_header_text calib_pool calib_characters calib_font inked_screen 140 str_Name 120 120
   = Inr (120, 120)"
  by (simp add: calib_eval draw_Name)

lemma find_Score:
  "find_header_text calib_pool calib_characters calib_font inked_screen 140 str_Score 120 110
   = Inr (124, 110)"
  by (simp add: calib_eval draw_Score)

lemma find_Kills:
  "find_header_text calib_pool calib_characters calib_font inked_screen 140 str_Kills 124 110
   = Inr (128, 110)"
  by (simp add: calib_eval draw_Kills)

lemma find_Assists:
  "find_header_text calib_pool calib_characters calib_font inked_screen 140 str_Assists 128 110
   = Inr (132, 110)"
  by (simp add: calib_eval draw_Assists)

lemma find_Deaths:
  "find_header_text calib_pool calib_characters calib_font inked_screen 140 str_Deaths 132 110
   = Inr (135, 110)"
  by (simp add: calib_eval draw_Deaths)

lemma c_str_Kills: "c_str str_Kills = str_Kills"
  by (simp add: c_str_def str_Kills_def)

lemma find_Kills_row_100:
  "find_header_text calib_pool calib_characters calib_font inked_screen 140 str_Kills 124 100
   = Inl (ExitFailure str_Kills (Some (124, 100)) (1 / 4))"
  by (simp add: calib_eval draw_Kills c_str_Kills)

lemma find_Name_blank:
  "find_header_text calib_pool calib_characters calib_font blank_screen 140 str_Name 120 120
   = Inl (ExitFailure str_Name (Some (120, 120)) (1 / 4))"
proof -
  have "c_str str_Name = str_Name"
    by (simp add: c_str_def str_Name_def)
  then show ?thesis
    by (simp add: calib_eval draw_Name blank_screen_def)
qed

lemma window_Name: "scan_window 140 calib_font 120 120 = map (\<lambda>x. (x, 120)) (range32 120 140)"
  by (simp add: scan_window_def calib_line_height range32_def upt_rec)

lemma window_Kills_100: "scan_window 140 calib_font 124 100 = map (\<lambda>x. (x, 100)) (range32 124 140)"
  by (simp add: scan_window_def calib_line_height range32_def upt_rec)

section \<open>Properties of the row segmenter\<close>

lemma screen_index:
  assumes "wf_screen buf W" "x < W" "y < 480"
  shows "unat (x + y * W) = unat x + unat y * unat W"
    and "unat (x + y * W) < length buf"
proof -
  have ux: "unat x < unat W" and uy: "unat y < 480"
    using assms by (simp_all add: word_less_nat_alt)
  have fit: "unat W * 480 < 2 ^ 32" and len: "length buf = unat W * 480"
    using assms(1) by (simp_all add: wf_screen_def)
  have "unat x + unat y * unat W < unat W * (unat y + 1)"
    using ux by (simp add: algebra_simps)
  also have "\<dots> \<le> unat W * 480"
    using uy by (intro mult_le_mono2) simp
  finally have a: "unat x + unat y * unat W < unat W * 480" .
  have "unat y * unat W \<le> unat x + unat y * unat W"
    by simp
  then have m: "unat (y * W) = unat y * unat W"
    using a fit unat_mult_lem [of y W] by simp
  show e: "unat (x + y * W) = unat x + unat y * unat W"
    using a fit m unat_add_lem [of x "y * W"] by simp
  show "unat (x + y * W) < length buf"
    using a e len by simp
qed

lemma first_ink_total:
  "\<forall>i \<in> set idx. i < length buf \<Longrightarrow> first_ink buf idx = Inr (list_ex (\<lambda>i. buf ! i \<noteq> 0) idx)"
  by (induction idx) (simp_all add: read_at_def)

lemma first_ink_row:
  assumes "wf_screen buf W" "y < 480"
  shows "first_ink buf (row_span W dx y) = Inr (row_has_ink buf W dx y)"
proof -
  have "\<forall>i \<in> set (row_span W dx y). i < length buf"
    using screen_index(2) [OF assms(1) _ assms(2)] by (auto simp: row_span_def set_range32)
  then show ?thesis
    by (simp add: first_ink_total row_span_def row_has_ink_def list_ex_iff)
qed

lemma skip_loop_result:
  assumes "wf_screen buf W"
  shows "\<exists>y'. skip_loop buf W dx y0 = Inr y' \<and> y0 \<le> y'
              \<and> (\<forall>y. y0 \<le> y \<and> y < y' \<longrightarrow> y < 480 \<and> row_has_ink buf W dx y)
              \<and> (y' < 480 \<longrightarrow> \<not> row_has_ink buf W dx y')"
  using assms
proof (induction buf W dx y0 rule: skip_loop.induct)
  case (1 buf W dx y0)
  show ?case
  proof (cases "y0 < 480")
    case False
    then show ?thesis
      by (intro exI [of _ y0]) (auto simp: skip_loop.simps [of buf W dx y0])
  next
    case True
    have fi: "first_ink buf (row_span W dx y0) = Inr (row_has_ink buf W dx y0)"
      using "1.prems" True by (rule first_ink_row)
    show ?thesis
    proof (cases "row_has_ink buf W dx y0")
      case False
      then have "skip_loop buf W dx y0 = Inr y0"
        using True fi by (simp add: skip_loop.simps [of buf W dx y0])
      then show ?thesis
        using False by (intro exI [of _ y0]) auto
    next
      case ink: True
      have step: "skip_loop buf W dx y0 = skip_loop buf W dx (y0 + 1)"
        using True fi ink by (simp add: skip_loop.simps [of buf W dx y0])
      from "1.IH" [OF True fi ink "1.prems"]
      obtain y' where r: "skip_loop buf W dx (y0 + 1) = Inr y'" and le: "y0 + 1 \<le> y'"
        and mid: "\<forall>y. y0 + 1 \<le> y \<and> y < y' \<longrightarrow> y < 480 \<and> row_has_ink buf W dx y"
        and last: "y' < 480 \<longrightarrow> \<not> row_has_ink buf W dx y'"
        by blast
      have u: "unat (y0 + 1) = unat y0 + 1"
        using True unat_add_lem [of y0 1] by (simp add: word_less_nat_alt)
      have a: "y0 \<le> y'"
        using le u by (simp add: word_le_nat_alt)
      have b: "y < 480 \<and> row_has_ink buf W dx y" if "y0 \<le> y" "y < y'" for y
      proof (cases "y = y0")
        case True
        then show ?thesis using \<open>y0 < 480\<close> ink by simp
      next
        case False
        then have "unat y0 < unat y"
          using that(1) by (simp add: word_le_nat_alt word_unat_eq_iff)
        then have "y0 + 1 \<le> y"
          using u by (simp add: word_le_nat_alt)
        then show ?thesis using mid that(2) by blast
      qed
      show ?thesis
        using step r a b last by (intro exI [of _ y']) auto
    qed
  qed
qed

lemma found_in_rows_total:
  assumes "wf_screen buf W" "\<forall>y \<in> set ys. y < 480"
  shows "found_in_rows buf W dx ys = Inr (list_ex (row_has_ink buf W dx) ys)"
  using assms(2)
proof (induction ys)
  case Nil
  then show ?case by simp
next
  case (Cons y ys)
  then show ?case
    using first_ink_row [OF assms(1), of y dx] by simp
qed

lemma found_something_result:
  assumes "wf_screen buf W" "y + scast (line_height_search font) \<le> 480"
  shows "found_something buf W dx font y
         = Inr (list_ex (row_has_ink buf W dx) (range32 y (y + scast (line_height_search font))))"
  unfolding found_something_def
  using assms by (intro found_in_rows_total) (auto simp: set_range32)

text \<open>The sample screenshot with the column of ink.\<close>

lemma wf_inked_screen: "wf_screen inked_screen 140"
  by (simp add: wf_screen_def inked_screen_def)

lemma inked_column:
  fixes y :: u32
  assumes "120 \<le> y" "y < 480"
  shows "row_has_ink inked_screen 140 135 y"
proof -
  have uy: "120 \<le> unat y" "unat y < 480"
    using assms by (simp_all add: word_le_nat_alt word_less_nat_alt)
  have "unat (136 + y * 140) = unat (136 :: u32) + unat y * unat (140 :: u32)"
    using assms(2) by (intro screen_index(1) [OF wf_inked_screen]) simp_all
  then have i: "unat (136 + y * 140) = 136 + unat y * 140"
    by simp
  have "inked_screen ! (136 + unat y * 140) = inked_pixels 136 (unat y)"
    unfolding inked_screen_def using uy by (intro render_at(2)) simp_all
  then have "inked_screen ! unat (136 + y * 140) \<noteq> 0"
    using uy by (simp add: i inked_pixels_def)
  moreover have "(136 :: u32) \<in> set (range32 135 140)"
    by (simp add: set_range32)
  ultimately show ?thesis
    unfolding row_has_ink_def list_ex_iff by blast
qed

lemma skip_inked_screen: "skip_to_next_line inked_screen 140 135 calib_font 120 = Inr 480"
proof -
  from skip_loop_result [OF wf_inked_screen, of 135 120]
  obtain y' :: u32 where r: "skip_loop inked_screen 140 135 120 = Inr y'" and le: "120 \<le> y'"
    and mid: "\<forall>y. 120 \<le> y \<and> y < y' \<longrightarrow> y < 480 \<and> row_has_ink inked_screen 140 135 y"
    and last: "y' < 480 \<longrightarrow> \<not> row_has_ink inked_screen 140 135 y'"
    by blast
  have "\<not> y' < 480"
    using last le inked_column [of y'] by blast
  moreover have "\<not> 480 < y'"
    using mid [rule_format, of 480] by auto
  ultimately have "y' = 480"
    by simp
  moreover have "(120 :: u32) + word_of_int (sint (line_height_search calib_font) sdiv 2) = 120"
    by (simp add: calib_line_height signed_divide_int_def)
  ultimately show ?thesis
    using r by (simp add: skip_to_next_line_def del: skip_loop.simps)
qed

lemma row_span_480: "row_span 140 135 480 = [67335, 67336, 67337, 67338, 67339]"
  by (simp add: row_span_def range32_def upt_rec)

lemma found_something_480:
  "found_something inked_screen 140 135 calib_font 480 = Inl OutOfBounds"
  by (simp add: found_something_def calib_line_height range32_def upt_rec row_span_480
      read_at_def inked_screen_def)

text \<open>The sample screenshot with three rows of ink.\<close>

lemma wf_rows_screen: "wf_screen rows_screen 140"
  by (simp add: wf_screen_def rows_screen_def)

lemma tall_line_height: "line_height_search tall_font = 2"
  by (simp add: line_height_search_def tall_font_def swap_endian16_def)

lemma tall_line_height_as_claimed: "line_height_as_claimed tall_font = 4"
  by (simp add: line_height_as_claimed_def tall_font_def swap_endian16_def)

lemma rows_screen_ink:
  fixes y :: u32
  assumes "y < 480"
  shows "row_has_ink rows_screen 140 135 y \<longleftrightarrow> y \<in> {120, 122, 126}"
proof -
  have uy: "unat y < 480"
    using assms by (simp add: word_less_nat_alt)
  have i: "unat (x + y * 140) = unat x + unat y * 140" if "x < 140" for x :: u32
    using screen_index(1) [OF wf_rows_screen that assms] by simp
  have px: "rows_screen ! unat (x + y * 140) = rows_pixels (unat x) (unat y)" if "x < 140" for x :: u32
    unfolding rows_screen_def i [OF that]
    using that uy by (intro render_at(2)) (simp_all add: word_less_nat_alt)
  have "row_has_ink rows_screen 140 135 y \<longleftrightarrow> unat y \<in> {120, 122, 126}"
    unfolding row_has_ink_def
    by (simp add: range32_def upt_rec px rows_pixels_def)
  also have "\<dots> \<longleftrightarrow> y \<in> {120, 122, 126}"
    by (auto simp: word_unat_eq_iff)
  finally show ?thesis .
qed

lemma rows_first_ink:
  fixes y :: u32
  assumes "y < 480"
  shows "first_ink rows_screen (row_span 140 135 y) = Inr (y \<in> {120, 122, 126})"
  using first_ink_row [OF wf_rows_screen assms, of 135] rows_screen_ink [OF assms] by simp

lemma skip_rows_screen: "skip_to_next_line rows_screen 140 135 tall_font 120 = Inr 121"
  by (simp add: skip_to_next_line_def tall_line_height signed_divide_int_def
      skip_loop.simps [of _ _ _ 121] rows_first_ink)

lemma skip_rows_screen_2: "skip_to_next_line rows_screen 140 135 tall_font 121 = Inr 123"
  by (simp add: skip_to_next_line_def tall_line_height signed_divide_int_def
      skip_loop.simps [of _ _ _ 122] skip_loop.simps [of _ _ _ 123] rows_first_ink)

lemma skip_rows_screen_as_claimed:
  "skip_to_next_line_as_claimed rows_screen 140 135 tall_font 120 = Inr 123"
  by (simp add: skip_to_next_line_as_claimed_def tall_line_height_as_claimed signed_divide_int_def
      skip_loop.simps [of _ _ _ 122] skip_loop.simps [of _ _ _ 123] rows_first_ink)

lemma found_rows_screen_121: "found_something rows_screen 140 135 tall_font 121 = Inr True"
  by (simp add: found_something_def tall_line_height range32_def upt_rec rows_first_ink)

lemma found_rows_screen_123: "found_something rows_screen 140 135 tall_font 123 = Inr False"
  by (simp add: found_something_def tall_line_height range32_def upt_rec rows_first_ink)

lemma found_rows_screen_as_claimed:
  "found_something_as_claimed rows_screen 140 135 tall_font 123 = Inr True"
  by (simp add: found_something_as_claimed_def tall_line_height_as_claimed range32_def upt_rec
      rows_first_ink)

section \<open>Properties of the cell decoder\<close>

lemma for_each_concat_map:
  "for_each (concat (map F ys)) body s = for_each ys (\<lambda>y. for_each (F y) body) s"
proof (induction ys arbitrary: s)
  case Nil
  then show ?case by simp
next
  case (Cons y ys)
  show ?case
    by (simp add: for_each_append Cons.IH [abs_def])
qed

lemma for_each_skip:
  "for_each xs (\<lambda>i s. if skip i then Inr s else body i s) s = for_each (filter (\<lambda>i. \<not> skip i) xs) body s"
proof (induction xs arbitrary: s)
  case Nil
  then show ?case by simp
next
  case (Cons i xs)
  show ?case
    by (simp add: Cons.IH [abs_def])
qed

lemma best_candidate_trials:
  "best_candidate buf W table x max_x search_y
   = for_each (tried table x max_x) (\<lambda>p best.
       and_then (match buf W (snd (snd p)) (x + fst (snd p)) (search_y + fst p)) (\<lambda>test.
         Inr (if test > fst best
              then (test, Some (first_char (snd (snd p)), width (snd (snd p)), fst (snd p)))
              else best)))
     (0, None)"
proof -
  have "best_candidate buf W table x max_x search_y
   = for_each (trials table) (\<lambda>p best.
       if overshoots x (snd (snd p)) max_x then Inr best
       else and_then (match buf W (snd (snd p)) (x + fst (snd p)) (search_y + fst p)) (\<lambda>test.
         Inr (if test > fst best
              then (test, Some (first_char (snd (snd p)), width (snd (snd p)), fst (snd p)))
              else best)))
     (0, None)"
    unfolding best_candidate_def trials_def
    by (simp add: for_each_concat_map [abs_def] for_each_map [abs_def] cong: if_cong)
  also have "\<dots> = for_each (tried table x max_x) (\<lambda>p best.
       and_then (match buf W (snd (snd p)) (x + fst (snd p)) (search_y + fst p)) (\<lambda>test.
         Inr (if test > fst best
              then (test, Some (first_char (snd (snd p)), width (snd (snd p)), fst (snd p)))
              else best)))
     (0, None)"
  proof -
    have f: "(\<lambda>(my :: u32, mx :: u32, c). \<not> overshoots x c max_x)
             = (\<lambda>p. \<not> overshoots x (snd (snd p)) max_x)"
      by (simp add: fun_eq_iff)
    show ?thesis
      unfolding tried_def f by (rule for_each_skip)
  qed
  finally show ?thesis .
qed

lemma best_candidate_result:
  assumes "\<forall>p \<in> set (tried table x max_x).
             match buf W (snd (snd p)) (x + fst (snd p)) (search_y + fst p) = Inr (s p)"
  shows "best_candidate buf W table x max_x search_y
         = Inr (Max (insert 0 (s ` set (tried table x max_x))),
                if Max (insert 0 (s ` set (tried table x max_x))) = 0 then None
                else map_option (\<lambda>p. (first_char (snd (snd p)), width (snd (snd p)), fst (snd p)))
                       (find (\<lambda>p. s p = Max (insert 0 (s ` set (tried table x max_x))))
                          (tried table x max_x)))"
  unfolding best_candidate_trials
  by (rule scan_first_payload [OF assms])

lemma trials_iff:
  "(my, mx, c) \<in> set (trials table) \<longleftrightarrow> my \<in> set offsets \<and> mx \<in> set offsets \<and> c \<in> set table"
  by (auto simp: trials_def)

lemma f32_halves:
  assumes "n < 2 ^ 24"
  shows "f32 (of_nat n / 2) = of_nat n / 2"
proof (cases "n = 0")
  case True
  then show ?thesis by simp
next
  case False
  then show ?thesis
    using assms f32_exact [of "int n" "- 1"] by (simp add: power_int_minus)
qed

lemma overshoots_exact:
  assumes "unat x < 2 ^ 22" "unat (width c) < 2 ^ 23" "unat max_x < 2 ^ 24"
  shows "overshoots x c max_x \<longleftrightarrow> 2 * unat max_x < 2 * unat x + unat (width c)"
proof -
  define a b m where "a = unat x" and "b = unat (width c)" and "m = unat max_x"
  have ab: "a < 2 ^ 22" "b < 2 ^ 23" "m < 2 ^ 24"
    using assms by (simp_all add: a_def b_def m_def)
  have fx: "u32_to_float x = of_nat a"
    unfolding u32_to_float_def a_def [symmetric] using ab(1) by (intro f32_of_nat) simp
  have fw: "u32_to_float (width c) = of_nat b"
    unfolding u32_to_float_def b_def [symmetric] using ab(2) by (intro f32_of_nat) simp
  have fm: "u32_to_float max_x = of_nat m"
    unfolding u32_to_float_def m_def [symmetric] using ab(3) by (intro f32_of_nat)
  have "f32 (of_nat b / 2) = of_nat b / 2"
    using ab(2) by (intro f32_halves) simp
  then have h: "f32 (of_nat b * (1 / 2)) = of_nat b / 2"
    by simp
  have e: "(of_nat a :: rat) + of_nat b / 2 = of_nat (2 * a + b) / 2"
    by simp
  have f: "f32 (of_nat (2 * a + b) / 2) = of_nat (2 * a + b) / 2"
    using ab(1,2) by (intro f32_halves) simp
  have "overshoots x c max_x \<longleftrightarrow> (of_nat m :: rat) < of_nat (2 * a + b) / 2"
    unfolding overshoots_def fx fw fm h e f ..
  also have "\<dots> \<longleftrightarrow> (of_nat (2 * m) :: rat) < of_nat (2 * a + b)"
    by (simp add: field_simps)
  also have "\<dots> \<longleftrightarrow> 2 * m < 2 * a + b"
    by (simp only: of_nat_less_iff)
  finally show ?thesis
    by (simp only: a_def b_def m_def)
qed

text \<open>The decoder on the sample screenshot.\<close>

lemma rect_1_1: "rect 1 1 = [(0, 0)]"
  by (simp add: rect_def range32_def upt_rec)

lemma match_render_pixel:
  fixes x y :: u32
  assumes t: "width t = 1" "height t = 1" "pixels t = [a]"
    and x: "x < 140" and y: "y < 480"
  shows "match (render f 140) 140 t x y
         = Inr (if pixel_hit a (f (unat x) (unat y)) then 1 else 0)"
proof -
  have ux: "unat x < 140" and uy: "unat y < 480"
    using x y by (simp_all add: word_less_nat_alt)
  have x1: "unat (x + 1) = unat x + 1" and y1: "unat (y + 1) = unat y + 1"
    using ux uy unat_add_lem [of x 1] unat_add_lem [of y 1] by simp_all
  have inside: "\<not> (x + width t > 140 \<or> y + height t > 480 \<or> width t = 0 \<or> height t = 0)"
    using x1 y1 ux uy by (simp add: t word_less_nat_alt)
  have reads: "reads_in_bounds (render f 140) 140 t x y"
    using ux uy by (intro reads_in_bounds_wf) (simp_all add: t)
  have ym: "unat (y * 140) = unat y * 140"
    using uy unat_mult_lem [of y 140] by simp
  have idx: "unat (x + y * 140) = unat x + unat y * 140"
    using ux uy ym unat_add_lem [of x "y * 140"] by simp
  have px: "render f 140 ! unat (x + y * 140) = f (unat x) (unat y)"
    using ux uy render_at(2) [of "unat x" 140 "unat y" f] by (simp add: idx)
  have hc: "hit_count (render f 140) 140 t x y
        = (if pixel_hit a (f (unat x) (unat y)) then 1 else 0)"
    using px by (simp add: hit_count_def t rect_1_1 pixel_hit_iff)
  have "match (render f 140) 140 t x y
        = Inr (f32 (f32 (of_nat (hit_count (render f 140) 140 t x y)) / f32 (of_nat (unat (height t) * unat (width t)))))"
    using inside reads by (intro match_inside(1)) (simp_all add: t)
  then show ?thesis
    by (simp add: hc t)
qed

lemmas decode_eval =
  trials_def offsets_def cand_N_def cand_D_def inked_screen_def match_render_row
  match_render_pixel inked_pixels_def header_pixels_def pixel_hit_iff

lemma tried_120: "tried [cand_N, cand_D] 120 125 = trials [cand_N, cand_D]"
  by (simp add: tried_def trials_def offsets_def overshoots_exact cand_N_def cand_D_def)

lemma tried_124: "tried [cand_N, cand_D] 124 125 = trials [cand_D]"
  by (simp add: tried_def trials_def offsets_def overshoots_exact cand_N_def cand_D_def)

lemma tried_125: "tried [cand_N, cand_D] 125 125 = []"
  by (simp add: tried_def trials_def offsets_def overshoots_exact cand_N_def cand_D_def)

lemma tried_130: "tried [cand_D] 130 135 = trials [cand_D]"
  by (simp add: tried_def trials_def offsets_def overshoots_exact cand_N_def cand_D_def)

section \<open>Properties of the ranking\<close>

lemma players_below_loop_eq:
  "players_below_loop p i j ts acc =
     acc + length (filter (\<lambda>k. j + k \<noteq> i \<and> counts_against p (ts ! k)) [0..<length ts])"
proof (induction ts arbitrary: j acc)
  case Nil
  then show ?case by simp
next
  case (Cons t ts)
  have "[0..<length (t # ts)] = 0 # map Suc [0..<length ts]"
    by (simp add: upt_conv_Cons map_Suc_upt del: upt_Suc)
  then show ?case
    by (simp add: Cons.IH filter_map comp_def del: upt_Suc)
qed

lemma counts_against_iff:
  "counts_against a b \<longleftrightarrow> outranks b a \<or> fully_tied a b"
proof -
  have eq: "\<And>x y :: 8 word. x = y \<longleftrightarrow> sint x = sint y"
    by (rule word_eq_iff_signed)
  show ?thesis
    unfolding counts_against_def outranks_def fully_tied_def eq
    by (cases "sint (score a)" "sint (score b)" rule: linorder_cases;
        cases "sint (kills a)" "sint (kills b)" rule: linorder_cases;
        cases "sint (deaths a)" "sint (deaths b)" rule: linorder_cases;
        cases "sint (assists a)" "sint (assists b)" rule: linorder_cases) simp_all
qed

lemma place_eq:
  assumes "i < length ps"
  shows "places ps ! i =
    1 + length (filter (\<lambda>j. j \<noteq> i \<and> (outranks (ps ! j) (ps ! i) \<or> fully_tied (ps ! i) (ps ! j)))
                  [0..<length ps])"
  using assms by (simp add: places_def players_below_loop_eq counts_against_iff)

lemma fully_tied_counts:
  assumes "fully_tied a b"
  shows "counts_against a c = counts_against b c" "counts_against a b" "counts_against a a"
  using assms by (simp_all add: counts_against_iff outranks_def fully_tied_def)

lemma count_except:
  assumes "i < n" and "Q i"
  shows "length (filter (\<lambda>k. k \<noteq> i \<and> Q k) [0..<n]) = card {k. k < n \<and> Q k} - 1"
proof -
  have "length (filter (\<lambda>k. k \<noteq> i \<and> Q k) [0..<n]) = card {k. k < n \<and> k \<noteq> i \<and> Q k}"
    by (simp add: length_filter_conv_card cong: conj_cong)
  also have "{k. k < n \<and> k \<noteq> i \<and> Q k} = {k. k < n \<and> Q k} - {i}"
    by blast
  also have "card \<dots> = card {k. k < n \<and> Q k} - 1"
    using assms by (simp add: card_Diff_singleton)
  finally show ?thesis .
qed

lemma tied_same_place:
  assumes i: "i < length ps" and j: "j < length ps" and t: "fully_tied (ps ! i) (ps ! j)"
  shows "places ps ! i = places ps ! j"
proof -
  define Q where "Q = (\<lambda>k. counts_against (ps ! i) (ps ! k))"
  have Qj: "(\<lambda>k. counts_against (ps ! j) (ps ! k)) = Q"
    unfolding Q_def using fully_tied_counts(1)[OF t] by simp
  have "Q i" "Q j"
    unfolding Q_def using fully_tied_counts(3)[OF t] fully_tied_counts(2)[OF t] by simp_all
  then have "length (filter (\<lambda>k. k \<noteq> i \<and> Q k) [0..<length ps])
           = length (filter (\<lambda>k. k \<noteq> j \<and> Q k) [0..<length ps])"
    using i j by (simp add: count_except)
  moreover have "places ps ! i = length (filter (\<lambda>k. k \<noteq> i \<and> Q k) [0..<length ps]) + 1"
    using i by (simp add: places_def players_below_loop_eq Q_def)
  moreover have "places ps ! j = length (filter (\<lambda>k. k \<noteq> j \<and> Q k) [0..<length ps]) + 1"
    using j by (simp add: places_def players_below_loop_eq Qj[symmetric])
  ultimately show ?thesis by simp
qed

lemma sample_rows_places:
  "places sample_rows = [2, 2, 4, 3, 5]"
  by (simp add: places_def sample_rows_def stats_def counts_against_def upt_rec)

section \<open>Claims\<close>

text \<open>
  Claim C1. For every template and placement \<open>(x, y)\<close>, \<open>match\<close> returns exactly 0
  when \<open>x + width > image_width\<close>, when \<open>y + height > 480\<close>, or when the template
  has zero width or zero height (the sums are the 32-bit sums of the code). Otherwise,
  when every pixel access is inside its vector and the template's pixel count fits in
  32 bits, it returns the number of template pixels whose absolute intensity difference
  from the aligned screenshot pixel is strictly below \<open>0x10\<close>, divided in \<open>float\<close>
  by the total number of template pixels, and this value lies between 0 and 1. For a
  template of fewer than \<open>2 ^ 24\<close> pixels both counts are exact floats and the
  result is the correctly rounded quotient.
\<close>

theorem match_returns_hit_ratio:
  "(x + width t > W \<or> y + height t > 480 \<or> width t = 0 \<or> height t = 0
      \<longrightarrow> match buf W t x y = Inr 0)
   \<and> (\<not> (x + width t > W \<or> y + height t > 480 \<or> width t = 0 \<or> height t = 0)
        \<and> reads_in_bounds buf W t x y \<and> unat (height t) * unat (width t) < 2 ^ 32
      \<longrightarrow> match buf W t x y
            = Inr (f32 (f32 (of_nat (hit_count buf W t x y))
                        / f32 (of_nat (unat (height t) * unat (width t)))))
          \<and> 0 \<le> f32 (f32 (of_nat (hit_count buf W t x y))
                      / f32 (of_nat (unat (height t) * unat (width t))))
          \<and> f32 (f32 (of_nat (hit_count buf W t x y))
                  / f32 (of_nat (unat (height t) * unat (width t)))) \<le> 1
          \<and> hit_count buf W t x y \<le> unat (height t) * unat (width t)
          \<and> (unat (height t) * unat (width t) < 2 ^ 24
               \<longrightarrow> match buf W t x y
                     = Inr (f32 (of_nat (hit_count buf W t x y)
                                 / of_nat (unat (height t) * unat (width t))))))"
proof (intro conjI impI)
  assume "x + width t > W \<or> y + height t > 480 \<or> width t = 0 \<or> height t = 0"
  then show "match buf W t x y = Inr 0"
    by (rule match_outside)
next
  assume a: "\<not> (x + width t > W \<or> y + height t > 480 \<or> width t = 0 \<or> height t = 0)
        \<and> reads_in_bounds buf W t x y \<and> unat (height t) * unat (width t) < 2 ^ 32"
  then show "match buf W t x y
            = Inr (f32 (f32 (of_nat (hit_count buf W t x y))
                        / f32 (of_nat (unat (height t) * unat (width t)))))"
    by (intro match_inside(1)) simp_all
  from a show "0 \<le> f32 (f32 (of_nat (hit_count buf W t x y))
                      / f32 (of_nat (unat (height t) * unat (width t))))"
    by (intro match_inside(2)) simp_all
  from a show "f32 (f32 (of_nat (hit_count buf W t x y))
                  / f32 (of_nat (unat (height t) * unat (width t)))) \<le> 1"
    by (intro match_inside(3)) simp_all
  show le: "hit_count buf W t x y \<le> unat (height t) * unat (width t)"
    using hit_count_le [of buf W t x y] by (simp add: mult.commute)
  assume small: "unat (height t) * unat (width t) < 2 ^ 24"
  define n where "n = hit_count buf W t x y"
  define total where "total = unat (height t) * unat (width t)"
  have "f32 (of_nat n) = of_nat n" "f32 (of_nat total) = of_nat total"
    using le small by (simp_all add: f32_of_nat n_def total_def del: of_nat_mult)
  moreover have "match buf W t x y = Inr (f32 (f32 (of_nat n) / f32 (of_nat total)))"
    unfolding n_def total_def using a by (intro match_inside(1)) simp_all
  ultimately show "match buf W t x y
                     = Inr (f32 (of_nat (hit_count buf W t x y)
                                 / of_nat (unat (height t) * unat (width t))))"
    by (simp add: n_def total_def del: of_nat_mult)
qed

theorem match_returns_hit_ratio_witness:
  "match small_screen 4 small_template 1 1 = Inr (3 / 4)
   \<and> match small_screen 4 small_template 3 1 = Inr 0
   \<and> match small_screen 4 small_template 1 479 = Inr 0
   \<and> hit_count small_screen 4 small_template 1 1 = 3"
proof -
  have "match small_screen 4 small_template 1 1 = Inr (3 / 4)"
    using match_returns_hit_ratio [where x = 1 and y = 1 and W = 4 and t = small_template and buf = small_screen] small_reads
    unfolding small_hits
    by (simp add: f32_three_quarters f32_numeral small_template_def)
  moreover have "match small_screen 4 small_template 3 1 = Inr 0"
    using match_returns_hit_ratio [where x = 3 and y = 1 and W = 4 and t = small_template and buf = small_screen]
    by (simp add: small_template_def)
  moreover have "match small_screen 4 small_template 1 479 = Inr 0"
    using match_returns_hit_ratio [where x = 1 and y = 479 and W = 4 and t = small_template and buf = small_screen]
    by (simp add: small_template_def)
  ultimately show ?thesis
    by (simp add: small_hits)
qed

text \<open>
  Claim C9. The threshold filter sends every intensity strictly below \<open>0x4F\<close> to 0 and
  every other intensity to \<open>0xFF\<close>, keeps the length of the buffer, and applying it
  twice gives the same buffer as applying it once.
\<close>

theorem filter_monochrome_threshold_idempotent:
  "filter_monochrome xs = map (\<lambda>m. if m < 0x4F then 0 else 0xFF) xs
   \<and> length (filter_monochrome xs) = length xs
   \<and> filter_monochrome (filter_monochrome xs) = filter_monochrome xs"
  using filter_monochrome_map [of xs] filter_monochrome_twice [of xs]
  by (simp add: MINIMUM_def)

theorem filter_monochrome_threshold_idempotent_witness:
  "filter_monochrome [0x00, 0x4E, 0x4F, 0x50, 0xFF] = [0, 0, 0xFF, 0xFF, 0xFF]
   \<and> filter_monochrome (filter_monochrome [0x00, 0x4E, 0x4F, 0x50, 0xFF])
     = filter_monochrome [0x00, 0x4E, 0x4F, 0x50, 0xFF]"
  using filter_monochrome_threshold_idempotent [of "[0x00, 0x4E, 0x4F, 0x50, 0xFF]"]
  by simp


text \<open>
  Claim C2, as the code has it. \<open>find_headers\<close> returns the anchors exactly when the
  five searches return them, where the search for \<open>Name\<close> starts at \<open>(120, 120)\<close>
  and each of the four later searches starts at \<open>min_x\<close> equal to the previous
  header's found \<open>x\<close> and at \<open>min_y\<close> equal to the found \<open>y\<close> of \<open>Name\<close> minus 10
  (a 32-bit difference); and a placement that a search returns lies in its window:
  \<open>min_x \<le> x < width\<close> and \<open>min_y \<le> y < min_y + line_height_search\<close>.
\<close>

theorem find_headers_search_windows:
  "(find_headers font_pixels characters font buf W = Inr a \<longleftrightarrow>
       find_header_text font_pixels characters font buf W str_Name 120 120
         = Inr (name_x a, name_y a)
     \<and> find_header_text font_pixels characters font buf W str_Score (name_x a) (name_y a - 10)
         = Inr (score_x a, score_y a)
     \<and> find_header_text font_pixels characters font buf W str_Kills (score_x a) (name_y a - 10)
         = Inr (kills_x a, kills_y a)
     \<and> find_header_text font_pixels characters font buf W str_Assists (kills_x a) (name_y a - 10)
         = Inr (assists_x a, assists_y a)
     \<and> find_header_text font_pixels characters font buf W str_Deaths (assists_x a) (name_y a - 10)
         = Inr (deaths_x a, deaths_y a))
   \<and> (find_header_text font_pixels characters font buf W str min_x min_y = Inr (x, y)
        \<longrightarrow> (x, y) \<in> set (scan_window W font min_x min_y)
            \<and> min_x \<le> x \<and> x < W \<and> min_y \<le> y \<and> y < min_y + scast (line_height_search font))"
proof (intro conjI impI)
  show "find_headers font_pixels characters font buf W = Inr a \<longleftrightarrow>
       find_header_text font_pixels characters font buf W str_Name 120 120
         = Inr (name_x a, name_y a)
     \<and> find_header_text font_pixels characters font buf W str_Score (name_x a) (name_y a - 10)
         = Inr (score_x a, score_y a)
     \<and> find_header_text font_pixels characters font buf W str_Kills (score_x a) (name_y a - 10)
         = Inr (kills_x a, kills_y a)
     \<and> find_header_text font_pixels characters font buf W str_Assists (kills_x a) (name_y a - 10)
         = Inr (assists_x a, assists_y a)
     \<and> find_header_text font_pixels characters font buf W str_Deaths (assists_x a) (name_y a - 10)
         = Inr (deaths_x a, deaths_y a)"
    by (rule find_headers_Inr_iff)
next
  assume "find_header_text font_pixels characters font buf W str min_x min_y = Inr (x, y)"
  then show w: "(x, y) \<in> set (scan_window W font min_x min_y)"
    by (rule find_header_text_in_window)
  then show "min_x \<le> x" "x < W" "min_y \<le> y" "y < min_y + scast (line_height_search font)"
    by (simp_all add: scan_window_iff)
qed

theorem find_headers_search_windows_witness:
  "find_headers calib_pool calib_characters calib_font inked_screen 140
     = Inr \<lparr>name_x = 120, name_y = 120, score_x = 124, score_y = 110, kills_x = 128,
            kills_y = 110, assists_x = 132, assists_y = 110, deaths_x = 135, deaths_y = 110\<rparr>
   \<and> (128, 110) \<in> set (scan_window 140 calib_font 124 (120 - 10))"
proof -
  have a: "find_headers calib_pool calib_characters calib_font inked_screen 140
     = Inr \<lparr>name_x = 120, name_y = 120, score_x = 124, score_y = 110, kills_x = 128,
            kills_y = 110, assists_x = 132, assists_y = 110, deaths_x = 135, deaths_y = 110\<rparr>"
    using find_headers_search_windows [where font_pixels = calib_pool
        and characters = calib_characters and font = calib_font and W = 140
        and buf = inked_screen
        and a = "\<lparr>name_x = 120, name_y = 120, score_x = 124, score_y = 110, kills_x = 128,
            kills_y = 110, assists_x = 132, assists_y = 110, deaths_x = 135, deaths_y = 110\<rparr>",
        THEN conjunct1]
    by (simp add: find_Name find_Score find_Kills find_Assists find_Deaths)
  have b: "(128, 110) \<in> set (scan_window 140 calib_font 124 (120 - 10))"
    using find_headers_search_windows [where font_pixels = calib_pool
        and characters = calib_characters and font = calib_font and W = 140
        and buf = inked_screen and str = str_Kills and min_x = 124 and min_y = "120 - 10"
        and x = 128 and y = 110, THEN conjunct2]
    by (simp add: find_Kills)
  show ?thesis
    by (intro conjI a b)
qed

text \<open>
  Claim C2 as stated fails: on the sample screenshot \<open>Score\<close> is found in row 110, ten
  rows above \<open>Name\<close>, and the search for \<open>Kills\<close> succeeds in the window that starts at
  row \<open>120 - 10\<close>; started at row \<open>110 - 10\<close>, as the claim has it, the search fails.
\<close>

theorem find_headers_windows_counterexample:
  "find_headers calib_pool calib_characters calib_font inked_screen 140
     = Inr \<lparr>name_x = 120, name_y = 120, score_x = 124, score_y = 110, kills_x = 128,
            kills_y = 110, assists_x = 132, assists_y = 110, deaths_x = 135, deaths_y = 110\<rparr>
   \<and> find_headers_as_claimed calib_pool calib_characters calib_font inked_screen 140
     = Inl (ExitFailure str_Kills (Some (124, 100)) (1 / 4))"
  by (simp add: find_headers_def find_headers_as_claimed_def find_Name find_Score find_Kills
      find_Assists find_Deaths find_Kills_row_100)

text \<open>
  Claim C4. For every input byte string, the image produced by \<open>draw_text\<close> has
  height \<open>ascending_height + descending_height\<close> and width the sum of the
  \<open>character_width\<close> of the characters of the string (the bytes before the first
  zero byte; the sum is the 32-bit unsigned sum the code accumulates), and its pixel
  vector has \<open>height * width\<close> entries. Consequently the width equals the sum of
  the widths of the images obtained by rasterizing each character alone. An image is
  produced whenever the canvas is well formed and the glyph bitmaps lie in the pool.
\<close>

theorem draw_text_dimensions:
  "(draw_text str pool characters font = Inr img \<longrightarrow>
      height img = word_of_int (sint (swap_endian16 (ascending_height font))
                                + sint (swap_endian16 (descending_height font)))
      \<and> width img
          = sum_list (map (\<lambda>c. scast (swap_endian16 (character_width (characters c)))) (c_str str))
      \<and> length (pixels img) = unat (height img * width img)
      \<and> text' img = c_str str)
   \<and> (draw_text str pool characters font = Inr img
        \<and> (\<forall>c \<in> set (c_str str). draw_text [c] pool characters font = Inr (single c))
      \<longrightarrow> width img = sum_list (map (\<lambda>c. width (single c)) (c_str str)))
   \<and> (wf_image (blank_canvas str characters font)
        \<and> (\<forall>c \<in> set (c_str str). glyph_in_pool pool (characters c))
      \<longrightarrow> (\<exists>drawn. draw_text str pool characters font = Inr drawn))"
proof (intro conjI impI)
  assume r: "draw_text str pool characters font = Inr img"
  note s = draw_text_shape [OF r, unfolded same_shape_def blank_canvas_def Let_def advance_def]
  show "height img = word_of_int (sint (swap_endian16 (ascending_height font))
                                + sint (swap_endian16 (descending_height font)))"
    using s by simp
  show "width img
          = sum_list (map (\<lambda>c. scast (swap_endian16 (character_width (characters c)))) (c_str str))"
    using s by simp
  show "length (pixels img) = unat (height img * width img)"
    using s by simp
  show "text' img = c_str str"
    using s by simp
next
  assume a: "draw_text str pool characters font = Inr img
        \<and> (\<forall>c \<in> set (c_str str). draw_text [c] pool characters font = Inr (single c))"
  then have "\<forall>c \<in> set (c_str str).
      width (single c) = scast (swap_endian16 (character_width (characters c)))"
    using draw_text_single_width [of _ str pool characters font] by blast
  then have "map (\<lambda>c. width (single c)) (c_str str)
      = map (\<lambda>c. scast (swap_endian16 (character_width (characters c)))) (c_str str)"
    by (intro map_cong) simp_all
  moreover have "width img
      = sum_list (map (\<lambda>c. scast (swap_endian16 (character_width (characters c)))) (c_str str))"
    using draw_text_shape [of str pool characters font img] a
    by (simp add: same_shape_def blank_canvas_def Let_def advance_def)
  ultimately show "width img = sum_list (map (\<lambda>c. width (single c)) (c_str str))"
    by (simp only:)
next
  assume "wf_image (blank_canvas str characters font)
        \<and> (\<forall>c \<in> set (c_str str). glyph_in_pool pool (characters c))"
  then show "\<exists>drawn. draw_text str pool characters font = Inr drawn"
    using draw_text_total [of str characters font pool] by simp
qed

theorem draw_text_dimensions_witness:
  "draw_text [0x41, 0x42, 0x41] sample_pool sample_characters sample_font = Inr image_ABA
   \<and> draw_text [0x41] sample_pool sample_characters sample_font = Inr image_A
   \<and> draw_text [0x42] sample_pool sample_characters sample_font = Inr image_B
   \<and> height image_ABA = 3
   \<and> width image_ABA = 7
   \<and> width image_ABA = width image_A + width image_B + width image_A
   \<and> length (pixels image_ABA) = 21"
proof -
  have aba: "draw_text [0x41, 0x42, 0x41] sample_pool sample_characters sample_font = Inr image_ABA"
    and a: "draw_text [0x41] sample_pool sample_characters sample_font = Inr image_A"
    and b: "draw_text [0x42] sample_pool sample_characters sample_font = Inr image_B"
    unfolding image_ABA_def image_A_def image_B_def
    by (rule draw_text_ABA draw_text_A draw_text_B)+
  have cs: "c_str [0x41, 0x42, 0x41 :: u8] = [0x41, 0x42, 0x41]"
    by (simp add: c_str_def)
  note main = draw_text_dimensions [where str = "[0x41, 0x42, 0x41]" and pool = sample_pool
      and characters = sample_characters and font = sample_font and img = image_ABA
      and single = "\<lambda>c. if c = 0x41 then image_A else image_B"]
  have singles: "\<forall>c \<in> set (c_str [0x41, 0x42, 0x41 :: u8]).
      draw_text [c] sample_pool sample_characters sample_font
      = Inr (if c = 0x41 then image_A else image_B)"
    unfolding cs using a b by simp
  have "width image_ABA = width image_A + width image_B + width image_A"
    using main [THEN conjunct2, THEN conjunct1] aba singles unfolding cs by simp
  moreover have "height image_ABA = 3 \<and> width image_ABA = 7 \<and> length (pixels image_ABA) = 21"
    using main [THEN conjunct1] aba unfolding cs by (simp add: sample_font_defs)
  ultimately show ?thesis
    using aba a b by simp
qed

text \<open>
  Claim C5. \<open>draw_text\<close> runs the drawing step once for each character of the
  string, in sequence, with the cursor starting at 0. On a well-formed canvas and with
  the bitmaps inside the pool it returns an image of the canvas size in which every
  pixel is what the sequence of characters leaves there (\<open>pixel_after\<close>): a
  character with a bitmap of positive width and height copies bitmap pixel
  \<open>(x, y)\<close> to \<open>(x_cursor + x, y + (ascending_height - bitmap_origin_y))\<close> with
  intensity \<open>value * 3 div 4\<close>, a destination outside the image is dropped (the
  image keeps its size and no access fails), and the cursor advances by the advance
  width whether or not anything was drawn. The single step is characterised in the
  same way on any well-formed image, and the slot of an undefined character code
  draws nothing and does not move the cursor.
\<close>

theorem draw_text_draws_each_character:
  "(wf_image (blank_canvas str characters font)
      \<and> (\<forall>c \<in> set (c_str str). glyph_in_pool monochrome_pixels (characters c))
    \<longrightarrow> (\<exists>drawn. draw_text str monochrome_pixels characters font = Inr drawn
           \<and> width drawn = sum_list (map (\<lambda>c. advance (characters c)) (c_str str))
           \<and> height drawn = height (blank_canvas str characters font)
           \<and> length (pixels drawn) = unat (width drawn) * unat (height drawn)
           \<and> (\<forall>X Y. X < width drawn \<and> Y < height drawn \<longrightarrow>
                 pixels drawn ! pixel_index drawn X Y
                 = pixel_after monochrome_pixels font (map characters (c_str str)) 0 0 X Y)))
   \<and> draw_text str monochrome_pixels characters font
       = and_then (for_each (map characters (c_str str)) (draw_character monochrome_pixels font)
                     (blank_canvas str characters font, 0))
           (\<lambda>state. Inr (fst state))
   \<and> (wf_image img \<and> glyph_in_pool monochrome_pixels c
      \<longrightarrow> (\<exists>img'. draw_character monochrome_pixels font c (img, x_cursor)
                      = Inr (img', x_cursor + advance c)
               \<and> width img' = width img \<and> height img' = height img
               \<and> length (pixels img') = length (pixels img)
               \<and> (\<not> glyph_drawn c \<longrightarrow> img' = img)
               \<and> (\<forall>X Y. X < width img \<and> Y < height img \<longrightarrow>
                     pixels img' ! pixel_index img X Y
                     = (if glyph_covers font c x_cursor X Y
                        then attenuate (monochrome_pixels ! glyph_source font c x_cursor X Y)
                        else pixels img ! pixel_index img X Y))))
   \<and> (glyph_covers font c x_cursor X Y \<longleftrightarrow>
        glyph_drawn c \<and> (\<exists>x y. x < glyph_width c \<and> y < glyph_height c
                             \<and> X = x_cursor + x \<and> Y = y + glyph_top font c))
   \<and> (x < glyph_width c \<and> y < glyph_height c \<and> glyph_drawn c
      \<longrightarrow> glyph_source font c x_cursor (x_cursor + x) (y + glyph_top font c)
          = glyph_offset c + unat (x + y * glyph_width c))
   \<and> pixel_after monochrome_pixels font (no_glyph # rest) x_cursor v X Y
       = pixel_after monochrome_pixels font rest x_cursor v X Y
   \<and> unat (attenuate v) = unat v * 3 div 4"
proof (intro conjI impI)
  assume a: "wf_image (blank_canvas str characters font)
      \<and> (\<forall>c \<in> set (c_str str). glyph_in_pool monochrome_pixels (characters c))"
  then obtain drawn where r: "draw_text str monochrome_pixels characters font = Inr drawn"
    and s: "same_shape drawn (blank_canvas str characters font)"
    and p: "\<forall>X Y. X < width drawn \<and> Y < height drawn \<longrightarrow>
                 pixels drawn ! pixel_index drawn X Y
                 = pixel_after monochrome_pixels font (map characters (c_str str)) 0 0 X Y"
    using draw_text_pixels [of str characters font monochrome_pixels] by blast
  have "width drawn = sum_list (map (\<lambda>c. advance (characters c)) (c_str str))"
    "height drawn = height (blank_canvas str characters font)"
    "length (pixels drawn) = unat (width drawn) * unat (height drawn)"
    using s a by (simp_all add: same_shape_def wf_image_def) (simp_all add: blank_canvas_def Let_def)
  then show "\<exists>drawn. draw_text str monochrome_pixels characters font = Inr drawn
           \<and> width drawn = sum_list (map (\<lambda>c. advance (characters c)) (c_str str))
           \<and> height drawn = height (blank_canvas str characters font)
           \<and> length (pixels drawn) = unat (width drawn) * unat (height drawn)
           \<and> (\<forall>X Y. X < width drawn \<and> Y < height drawn \<longrightarrow>
                 pixels drawn ! pixel_index drawn X Y
                 = pixel_after monochrome_pixels font (map characters (c_str str)) 0 0 X Y)"
    using r p by blast
next
  show "draw_text str monochrome_pixels characters font
       = and_then (for_each (map characters (c_str str)) (draw_character monochrome_pixels font)
                     (blank_canvas str characters font, 0))
           (\<lambda>state. Inr (fst state))"
    by (rule draw_text_unfold)
next
  assume a: "wf_image img \<and> glyph_in_pool monochrome_pixels c"
  from draw_character_effect [of img monochrome_pixels c font x_cursor] a
  obtain img' where r: "draw_character monochrome_pixels font c (img, x_cursor)
                  = Inr (img', x_cursor + advance c)"
    and wf': "wf_image img'" and w: "width img' = width img" and h: "height img' = height img"
    and nd: "\<not> glyph_drawn c \<longrightarrow> img' = img"
    and p: "\<forall>X Y. X < width img \<and> Y < height img \<longrightarrow>
                 pixels img' ! pixel_index img X Y
                 = (if glyph_covers font c x_cursor X Y
                    then attenuate (monochrome_pixels ! glyph_source font c x_cursor X Y)
                    else pixels img ! pixel_index img X Y)"
    unfolding advance_def glyph_covers_def glyph_source_def glyph_width_def glyph_height_def
      glyph_top_def glyph_offset_def
    by blast
  have "length (pixels img') = length (pixels img)"
    using wf' a w h by (simp add: wf_image_def)
  then show "\<exists>img'. draw_character monochrome_pixels font c (img, x_cursor)
                      = Inr (img', x_cursor + advance c)
               \<and> width img' = width img \<and> height img' = height img
               \<and> length (pixels img') = length (pixels img)
               \<and> (\<not> glyph_drawn c \<longrightarrow> img' = img)
               \<and> (\<forall>X Y. X < width img \<and> Y < height img \<longrightarrow>
                     pixels img' ! pixel_index img X Y
                     = (if glyph_covers font c x_cursor X Y
                        then attenuate (monochrome_pixels ! glyph_source font c x_cursor X Y)
                        else pixels img ! pixel_index img X Y))"
    using r w h nd p by blast
next
  show "glyph_covers font c x_cursor X Y \<longleftrightarrow>
        glyph_drawn c \<and> (\<exists>x y. x < glyph_width c \<and> y < glyph_height c
                             \<and> X = x_cursor + x \<and> Y = y + glyph_top font c)"
    by (rule glyph_covers_iff)
next
  assume a: "x < glyph_width c \<and> y < glyph_height c \<and> glyph_drawn c"
  have bw: "unat (glyph_width c) < 2 ^ 15" and bh: "unat (glyph_height c) < 2 ^ 15"
    using a unat_scast_nonneg [of "swap_endian16 (bitmap_width c)"]
      unat_scast_nonneg [of "swap_endian16 (bitmap_height c)"]
    unfolding glyph_width_def glyph_height_def glyph_drawn_def by simp_all
  have "unat (x + y * glyph_width c) = unat x + unat y * unat (glyph_width c)"
    using rect_source_index(1) [OF bw bh] a by simp
  then show "glyph_source font c x_cursor (x_cursor + x) (y + glyph_top font c)
          = glyph_offset c + unat (x + y * glyph_width c)"
    by (simp add: glyph_source_def)
next
  show "pixel_after monochrome_pixels font (no_glyph # rest) x_cursor v X Y
       = pixel_after monochrome_pixels font rest x_cursor v X Y"
    by (rule pixel_after_no_glyph)
next
  show "unat (attenuate v) = unat v * 3 div 4"
    by (rule attenuate_three_quarters)
qed

theorem draw_text_draws_each_character_witness:
  "wf_image (blank_canvas [0x41, 0x42, 0x41] sample_characters sample_font)
   \<and> draw_text [0x41, 0x42, 0x41] sample_pool sample_characters sample_font = Inr image_ABA
   \<and> pixels image_ABA ! pixel_index image_ABA 5 0
       = pixel_after sample_pool sample_font [glyph_A, glyph_B, glyph_A] 0 0 5 0
   \<and> pixels image_ABA ! pixel_index image_ABA 5 0 = 191
   \<and> pixels image_ABA ! pixel_index image_ABA 3 1 = 191
   \<and> pixels image_ABA ! pixel_index image_ABA 1 0 = 0
   \<and> pixels image_ABA ! pixel_index image_ABA 4 1 = 0
   \<and> draw_character sample_pool sample_font glyph_B (sample_canvas, 2) = Inr (image_B_on_canvas, 5)
   \<and> unat (attenuate 0xFF) = 191"
proof -
  have wf: "wf_image (blank_canvas [0x41, 0x42, 0x41] sample_characters sample_font)"
    unfolding sample_blank_canvas by (rule wf_sample_canvas)
  have run: "draw_text [0x41, 0x42, 0x41] sample_pool sample_characters sample_font = Inr image_ABA"
    unfolding image_ABA_def by (rule draw_text_ABA)
  note main = draw_text_draws_each_character [where str = "[0x41, 0x42, 0x41]"
      and characters = sample_characters and font = sample_font
      and monochrome_pixels = sample_pool and v = "0xFF"]
  from main [THEN conjunct1, rule_format, OF conjI [OF wf sample_chars_in_pool]]
  obtain drawn where d: "draw_text [0x41, 0x42, 0x41] sample_pool sample_characters sample_font
                         = Inr drawn"
    and p: "\<forall>X Y. X < width drawn \<and> Y < height drawn \<longrightarrow>
                 pixels drawn ! pixel_index drawn X Y
                 = pixel_after sample_pool sample_font
                     (map sample_characters (c_str [0x41, 0x42, 0x41])) 0 0 X Y"
    by blast
  have eq: "drawn = image_ABA" using d run by simp
  have dims: "width image_ABA = 7" "height image_ABA = 3"
    by (simp_all add: image_ABA_def)
  have px: "\<And>X Y. X < 7 \<Longrightarrow> Y < 3 \<Longrightarrow> pixels image_ABA ! pixel_index image_ABA X Y
                 = pixel_after sample_pool sample_font [glyph_A, glyph_B, glyph_A] 0 0 X Y"
    using p unfolding eq sample_chars_map dims by simp
  have att: "unat (attenuate (0xFF :: u8)) = 191"
    using main [THEN conjunct2, THEN conjunct2, THEN conjunct2, THEN conjunct2, THEN conjunct2,
        THEN conjunct2]
    by simp
  have lt: "(5 :: u32) < 7" "(3 :: u32) < 7" "(1 :: u32) < 7" "(4 :: u32) < 7"
    "(0 :: u32) < 3" "(1 :: u32) < 3"
    by simp_all
  note p50 = px [OF lt(1) lt(5)] and p31 = px [OF lt(2) lt(6)]
    and p10 = px [OF lt(3) lt(5)] and p41 = px [OF lt(4) lt(6)]
  show ?thesis
    by (intro conjI wf run p50 p50 [THEN trans, OF sample_pixel_after(1)]
        p31 [THEN trans, OF sample_pixel_after(2)] p10 [THEN trans, OF sample_pixel_after(3)]
        p41 [THEN trans, OF sample_pixel_after(4)] draw_B_on_canvas att)
qed

text \<open>
  Claim C3. Let the header string be drawn and every placement of the search window be
  scored by \<open>match\<close>, and let \<open>best\<close> be the highest score over the whole window
  (0 for an empty window). If \<open>best\<close> is below 0.85, \<open>find_header_text\<close> ends the
  program with the failure exit, reporting the string, the first placement that reached
  \<open>best\<close> (nothing when no placement scored above 0) and \<open>best\<close>. If \<open>best\<close>
  is at least 0.85, it returns the first placement that reached \<open>best\<close>. A failure
  of any of the five searches is the result of \<open>find_headers\<close> and of the whole run,
  and when \<open>find_headers\<close> returns, its ten anchors are the placements the five
  searches returned.
\<close>

theorem find_header_text_threshold:
  assumes draw: "draw_text str font_pixels characters font = Inr drawn"
    and ms: "\<forall>p \<in> set (scan_window W font min_x min_y).
               match buf W (thresholded drawn) (fst p) (snd p) = Inr (s p)"
  shows "(Max (insert 0 (s ` set (scan_window W font min_x min_y))) < 85 / 100 \<longrightarrow>
            find_header_text font_pixels characters font buf W str min_x min_y
            = Inl (ExitFailure (c_str str)
                (if Max (insert 0 (s ` set (scan_window W font min_x min_y))) = 0 then None
                 else find (\<lambda>p. s p = Max (insert 0 (s ` set (scan_window W font min_x min_y))))
                        (scan_window W font min_x min_y))
                (Max (insert 0 (s ` set (scan_window W font min_x min_y))))))
       \<and> (85 / 100 \<le> Max (insert 0 (s ` set (scan_window W font min_x min_y))) \<longrightarrow>
            (\<exists>p. find (\<lambda>p. s p = Max (insert 0 (s ` set (scan_window W font min_x min_y))))
                   (scan_window W font min_x min_y) = Some p
                 \<and> find_header_text font_pixels characters font buf W str min_x min_y = Inr p))
       \<and> (\<forall>e. find_headers font_pixels characters font buf W = Inl e \<longleftrightarrow>
     find_header_text font_pixels characters font buf W str_Name 120 120 = Inl e
   \<or> (\<exists>name. find_header_text font_pixels characters font buf W str_Name 120 120 = Inr name
        \<and> (find_header_text font_pixels characters font buf W str_Score (fst name) (snd name - 10)
             = Inl e
         \<or> (\<exists>score. find_header_text font_pixels characters font buf W str_Score (fst name)
                        (snd name - 10) = Inr score
              \<and> (find_header_text font_pixels characters font buf W str_Kills (fst score)
                    (snd name - 10) = Inl e
               \<or> (\<exists>kills. find_header_text font_pixels characters font buf W str_Kills
                              (fst score) (snd name - 10) = Inr kills
                    \<and> (find_header_text font_pixels characters font buf W str_Assists (fst kills)
                          (snd name - 10) = Inl e
                     \<or> (\<exists>assists. find_header_text font_pixels characters font buf W
                                      str_Assists (fst kills) (snd name - 10) = Inr assists
                          \<and> find_header_text font_pixels characters font buf W str_Deaths
                               (fst assists) (snd name - 10) = Inl e))))))))
       \<and> (\<forall>a. find_headers font_pixels characters font buf W = Inr a \<longrightarrow>
            find_header_text font_pixels characters font buf W str_Name 120 120
              = Inr (name_x a, name_y a)
          \<and> find_header_text font_pixels characters font buf W str_Score (name_x a) (name_y a - 10)
              = Inr (score_x a, score_y a)
          \<and> find_header_text font_pixels characters font buf W str_Kills (score_x a) (name_y a - 10)
              = Inr (kills_x a, kills_y a)
          \<and> find_header_text font_pixels characters font buf W str_Assists (kills_x a) (name_y a - 10)
              = Inr (assists_x a, assists_y a)
          \<and> find_header_text font_pixels characters font buf W str_Deaths (assists_x a) (name_y a - 10)
              = Inr (deaths_x a, deaths_y a))
       \<and> (\<forall>e fuel decode_row rows.
            find_headers font_pixels characters font buf W = Inl e \<longrightarrow>
            read_scoreboard fuel decode_row font_pixels characters font buf W rows = Inl e)"
proof (intro conjI impI allI)
  let ?best = "Max (insert 0 (s ` set (scan_window W font min_x min_y)))"
  note ex = find_header_text_exact [OF draw ms]
  {
    assume "?best < 85 / 100"
    then show "find_header_text font_pixels characters font buf W str min_x min_y
            = Inl (ExitFailure (c_str str)
                (if ?best = 0 then None
                 else find (\<lambda>p. s p = ?best) (scan_window W font min_x min_y)) ?best)"
      using ex by simp
  }
  {
    assume b: "85 / 100 \<le> ?best"
    then have nz: "?best \<noteq> 0" by auto
    have "?best \<in> insert 0 (s ` set (scan_window W font min_x min_y))"
      by (intro Max_in) simp_all
    with nz obtain q where "q \<in> set (scan_window W font min_x min_y)" "s q = ?best"
      by auto
    then have "find (\<lambda>p. s p = ?best) (scan_window W font min_x min_y) \<noteq> None"
      unfolding find_None_iff by blast
    then obtain p where p: "find (\<lambda>p. s p = ?best) (scan_window W font min_x min_y) = Some p"
      by auto
    then have "find_header_text font_pixels characters font buf W str min_x min_y = Inr p"
      using ex b by simp
    with p show "\<exists>p. find (\<lambda>p. s p = ?best) (scan_window W font min_x min_y) = Some p
                 \<and> find_header_text font_pixels characters font buf W str min_x min_y = Inr p"
      by blast
  }
next
  fix e
  show "find_headers font_pixels characters font buf W = Inl e \<longleftrightarrow>
     find_header_text font_pixels characters font buf W str_Name 120 120 = Inl e
   \<or> (\<exists>name. find_header_text font_pixels characters font buf W str_Name 120 120 = Inr name
        \<and> (find_header_text font_pixels characters font buf W str_Score (fst name) (snd name - 10)
             = Inl e
         \<or> (\<exists>score. find_header_text font_pixels characters font buf W str_Score (fst name)
                        (snd name - 10) = Inr score
              \<and> (find_header_text font_pixels characters font buf W str_Kills (fst score)
                    (snd name - 10) = Inl e
               \<or> (\<exists>kills. find_header_text font_pixels characters font buf W str_Kills
                              (fst score) (snd name - 10) = Inr kills
                    \<and> (find_header_text font_pixels characters font buf W str_Assists (fst kills)
                          (snd name - 10) = Inl e
                     \<or> (\<exists>assists. find_header_text font_pixels characters font buf W
                                      str_Assists (fst kills) (snd name - 10) = Inr assists
                          \<and> find_header_text font_pixels characters font buf W str_Deaths
                               (fst assists) (snd name - 10) = Inl e)))))))"
    by (rule find_headers_Inl_iff)
next
  fix a
  assume "find_headers font_pixels characters font buf W = Inr a"
  then have *: "find_header_text font_pixels characters font buf W str_Name 120 120
       = Inr (name_x a, name_y a)
   \<and> find_header_text font_pixels characters font buf W str_Score (name_x a) (name_y a - 10)
       = Inr (score_x a, score_y a)
   \<and> find_header_text font_pixels characters font buf W str_Kills (score_x a) (name_y a - 10)
       = Inr (kills_x a, kills_y a)
   \<and> find_header_text font_pixels characters font buf W str_Assists (kills_x a) (name_y a - 10)
       = Inr (assists_x a, assists_y a)
   \<and> find_header_text font_pixels characters font buf W str_Deaths (assists_x a) (name_y a - 10)
       = Inr (deaths_x a, deaths_y a)"
    by (simp only: find_headers_Inr_iff)
  from * show "find_header_text font_pixels characters font buf W str_Name 120 120
       = Inr (name_x a, name_y a)" by simp
  from * show "find_header_text font_pixels characters font buf W str_Score (name_x a) (name_y a - 10)
       = Inr (score_x a, score_y a)" by simp
  from * show "find_header_text font_pixels characters font buf W str_Kills (score_x a) (name_y a - 10)
       = Inr (kills_x a, kills_y a)" by simp
  from * show "find_header_text font_pixels characters font buf W str_Assists (kills_x a) (name_y a - 10)
       = Inr (assists_x a, assists_y a)" by simp
  from * show "find_header_text font_pixels characters font buf W str_Deaths (assists_x a) (name_y a - 10)
       = Inr (deaths_x a, deaths_y a)" by simp
next
  fix e :: error and fuel :: nat and decode_row :: "Anchors \<Rightarrow> u32 \<Rightarrow> 'a \<Rightarrow> error + 'a" and rows :: 'a
  assume "find_headers font_pixels characters font buf W = Inl e"
  then show "read_scoreboard fuel decode_row font_pixels characters font buf W rows = Inl e"
    by (simp add: read_scoreboard_def)
qed

theorem find_header_text_threshold_witness:
  "find_header_text calib_pool calib_characters calib_font inked_screen 140 str_Name 120 120
     = Inr (120, 120)
   \<and> find_header_text calib_pool calib_characters calib_font inked_screen 140 str_Kills 124 100
     = Inl (ExitFailure str_Kills (Some (124, 100)) (1 / 4))
   \<and> find_headers calib_pool calib_characters calib_font blank_screen 140
     = Inl (ExitFailure str_Name (Some (120, 120)) (1 / 4))"
proof -
  define name_tpl where "name_tpl = thresholded \<lparr>width = 4, height = 1, pixels = [191, 191, 0, 191], text' = str_Name\<rparr>"
  define s where "s = (\<lambda>p. case match inked_screen 140 name_tpl (fst p) (snd p) of Inr v \<Rightarrow> v | Inl e \<Rightarrow> 0)"
  have tpl: "name_tpl = \<lparr>width = 4, height = 1, pixels = [255, 255, 0, 255], text' = str_Name\<rparr>"
    by (simp add: name_tpl_def thresholded_def MINIMUM_def)
  have ms: "\<forall>p \<in> set (scan_window 140 calib_font 120 120).
     match inked_screen 140 name_tpl (fst p) (snd p) = Inr (s p)"
    unfolding window_Name s_def tpl
    by (simp add: range32_def upt_rec inked_screen_def match_render_row match_render_edge)
  have best: "Max (insert 0 (s ` set (scan_window 140 calib_font 120 120))) = 1"
    unfolding window_Name s_def tpl
    by (simp add: range32_def upt_rec inked_screen_def match_render_row match_render_edge
         inked_pixels_def header_pixels_def pixel_hit_iff)
  have first: "find (\<lambda>p. s p = 1) (scan_window 140 calib_font 120 120) = Some (120, 120)"
    unfolding window_Name s_def tpl
    by (simp add: range32_def upt_rec inked_screen_def match_render_row match_render_edge
         inked_pixels_def header_pixels_def pixel_hit_iff)
  have a: "find_header_text calib_pool calib_characters calib_font inked_screen 140 str_Name 120 120
     = Inr (120, 120)"
    using find_header_text_threshold [where str = str_Name and font_pixels = calib_pool
        and characters = calib_characters and font = calib_font and W = 140 and min_x = 120
        and min_y = 120 and buf = inked_screen and s = s, OF draw_Name ms [unfolded name_tpl_def],
        THEN conjunct2, THEN conjunct1]
    unfolding best first by simp
  define kills_tpl where "kills_tpl = thresholded \<lparr>width = 4, height = 1, pixels = [191, 0, 191, 191], text' = str_Kills\<rparr>"
  define s2 where "s2 = (\<lambda>p. case match inked_screen 140 kills_tpl (fst p) (snd p) of Inr v \<Rightarrow> v | Inl e \<Rightarrow> 0)"
  have tpl2: "kills_tpl = \<lparr>width = 4, height = 1, pixels = [255, 0, 255, 255], text' = str_Kills\<rparr>"
    by (simp add: kills_tpl_def thresholded_def MINIMUM_def)
  have ms2: "\<forall>p \<in> set (scan_window 140 calib_font 124 100).
     match inked_screen 140 kills_tpl (fst p) (snd p) = Inr (s2 p)"
    unfolding window_Kills_100 s2_def tpl2
    by (simp add: range32_def upt_rec inked_screen_def match_render_row match_render_edge)
  have best2: "Max (insert 0 (s2 ` set (scan_window 140 calib_font 124 100))) = 1 / 4"
    unfolding window_Kills_100 s2_def tpl2
    by (simp add: range32_def upt_rec inked_screen_def match_render_row match_render_edge
         inked_pixels_def header_pixels_def pixel_hit_iff)
  have first2: "find (\<lambda>p. s2 p = 1 / 4) (scan_window 140 calib_font 124 100) = Some (124, 100)"
    unfolding window_Kills_100 s2_def tpl2
    by (simp add: range32_def upt_rec inked_screen_def match_render_row match_render_edge
         inked_pixels_def header_pixels_def pixel_hit_iff)
  have b: "find_header_text calib_pool calib_characters calib_font inked_screen 140 str_Kills 124 100
     = Inl (ExitFailure str_Kills (Some (124, 100)) (1 / 4))"
    using find_header_text_threshold [where str = str_Kills and font_pixels = calib_pool
        and characters = calib_characters and font = calib_font and W = 140 and min_x = 124
        and min_y = 100 and buf = inked_screen and s = s2, OF draw_Kills ms2 [unfolded kills_tpl_def],
        THEN conjunct1]
    unfolding best2 first2 by (simp add: c_str_Kills)
  define s3 where "s3 = (\<lambda>p. case match blank_screen 140 name_tpl (fst p) (snd p) of Inr v \<Rightarrow> v | Inl e \<Rightarrow> 0)"
  have ms3: "\<forall>p \<in> set (scan_window 140 calib_font 120 120).
     match blank_screen 140 name_tpl (fst p) (snd p) = Inr (s3 p)"
    unfolding window_Name s3_def tpl
    by (simp add: range32_def upt_rec blank_screen_def match_render_row match_render_edge)
  have c: "find_headers calib_pool calib_characters calib_font blank_screen 140
     = Inl (ExitFailure str_Name (Some (120, 120)) (1 / 4))"
    using find_header_text_threshold [where str = str_Name and font_pixels = calib_pool
        and characters = calib_characters and font = calib_font and W = 140 and min_x = 120
        and min_y = 120 and buf = blank_screen and s = s3, OF draw_Name ms3 [unfolded name_tpl_def],
        THEN conjunct2, THEN conjunct2, THEN conjunct1]
    by (simp add: find_Name_blank)
  show ?thesis
    by (intro conjI a b c)
qed

text \<open>
  Claim C6. In one iteration of the loop of \<open>string_at\<close> the offsets \<open>my\<close> and
  \<open>mx\<close> run through \<open>-3, ..., 3\<close> and every candidate of the table is visited at
  every pair of offsets; a candidate is matched at \<open>(x + mx, search_y + my)\<close> unless
  \<open>x + width * 0.5 > max_x\<close> in float, which for a cursor below \<open>2 ^ 22\<close> and
  widths and ends below \<open>2 ^ 23\<close> and \<open>2 ^ 24\<close> is \<open>2 * max_x < 2 * x + width\<close>.
  With every match of the iteration giving a score, \<open>best_candidate\<close> returns the
  highest score, and for a score above zero the first triple that reached it. The loop
  ends with the string built so far when the cursor is not left of \<open>max_x\<close>, and also
  when no candidate scores above zero; otherwise it appends the first character of the
  winning candidate's text and goes on at the cursor plus that candidate's width,
  whatever the offset of the winning match.
\<close>

theorem string_at_loop_decodes:
  assumes ms: "\<forall>p \<in> set (tried table x max_x).
             match buf W (snd (snd p)) (x + fst (snd p)) (search_y + fst p) = Inr (s p)"
  shows "offsets = map word_of_int [- 3, - 2, - 1, 0, 1, 2, 3]
   \<and> ((my, mx, c) \<in> set (trials table)
        \<longleftrightarrow> my \<in> set offsets \<and> mx \<in> set offsets \<and> c \<in> set table)
   \<and> ((my, mx, c) \<in> set (tried table x max_x)
        \<longleftrightarrow> (my, mx, c) \<in> set (trials table) \<and> \<not> overshoots x c max_x)
   \<and> (unat x < 2 ^ 22 \<and> unat (width c) < 2 ^ 23 \<and> unat max_x < 2 ^ 24 \<longrightarrow>
        (overshoots x c max_x \<longleftrightarrow> 2 * unat max_x < 2 * unat x + unat (width c)))
   \<and> best_candidate buf W table x max_x search_y
       = Inr (Max (insert 0 (s ` set (tried table x max_x))),
              if Max (insert 0 (s ` set (tried table x max_x))) = 0 then None
              else map_option (\<lambda>p. (first_char (snd (snd p)), width (snd (snd p)), fst (snd p)))
                     (find (\<lambda>p. s p = Max (insert 0 (s ` set (tried table x max_x))))
                        (tried table x max_x)))
   \<and> (\<not> x < max_x \<longrightarrow>
        string_at_loop (Suc fuel) buf W table max_x search_y x final_string = Inr final_string)
   \<and> (x < max_x \<and> Max (insert 0 (s ` set (tried table x max_x))) = 0 \<longrightarrow>
        string_at_loop (Suc fuel) buf W table max_x search_y x final_string = Inr final_string)
   \<and> (x < max_x \<and> 0 < Max (insert 0 (s ` set (tried table x max_x))) \<longrightarrow>
        (\<exists>wy wx w. find (\<lambda>p. s p = Max (insert 0 (s ` set (tried table x max_x))))
                      (tried table x max_x) = Some (wy, wx, w)
           \<and> string_at_loop (Suc fuel) buf W table max_x search_y x final_string
             = string_at_loop fuel buf W table max_x search_y (x + width w)
                 (final_string @ [first_char w])))"
proof (intro conjI impI)
  let ?best = "Max (insert 0 (s ` set (tried table x max_x)))"
  show "offsets = map word_of_int [- 3, - 2, - 1, 0, 1, 2, 3]"
    by (simp add: offsets_def)
  show "(my, mx, c) \<in> set (trials table)
        \<longleftrightarrow> my \<in> set offsets \<and> mx \<in> set offsets \<and> c \<in> set table"
    by (rule trials_iff)
  show "(my, mx, c) \<in> set (tried table x max_x)
        \<longleftrightarrow> (my, mx, c) \<in> set (trials table) \<and> \<not> overshoots x c max_x"
    by (auto simp: tried_def)
  show bc: "best_candidate buf W table x max_x search_y
       = Inr (?best,
              if ?best = 0 then None
              else map_option (\<lambda>p. (first_char (snd (snd p)), width (snd (snd p)), fst (snd p)))
                     (find (\<lambda>p. s p = ?best) (tried table x max_x)))"
    by (rule best_candidate_result [OF ms])
  {
    assume "unat x < 2 ^ 22 \<and> unat (width c) < 2 ^ 23 \<and> unat max_x < 2 ^ 24"
    then show "overshoots x c max_x \<longleftrightarrow> 2 * unat max_x < 2 * unat x + unat (width c)"
      by (intro overshoots_exact) simp_all
  }
  {
    assume "\<not> x < max_x"
    then show "string_at_loop (Suc fuel) buf W table max_x search_y x final_string = Inr final_string"
      by simp
  }
  {
    assume "x < max_x \<and> ?best = 0"
    then show "string_at_loop (Suc fuel) buf W table max_x search_y x final_string = Inr final_string"
      using bc by simp
  }
  {
    assume a: "x < max_x \<and> 0 < ?best"
    then have nz: "?best \<noteq> 0" by simp
    have "?best \<in> insert 0 (s ` set (tried table x max_x))"
      by (intro Max_in) simp_all
    with nz obtain q where "q \<in> set (tried table x max_x)" "s q = ?best"
      by auto
    then have "find (\<lambda>p. s p = ?best) (tried table x max_x) \<noteq> None"
      unfolding find_None_iff by blast
    then obtain wy wx w where
      f: "find (\<lambda>p. s p = ?best) (tried table x max_x) = Some (wy, wx, w)"
      by (cases "find (\<lambda>p. s p = ?best) (tried table x max_x)") auto
    have "string_at_loop (Suc fuel) buf W table max_x search_y x final_string
             = string_at_loop fuel buf W table max_x search_y (x + width w)
                 (final_string @ [first_char w])"
      using a bc nz f by simp
    with f show "\<exists>wy wx w. find (\<lambda>p. s p = ?best) (tried table x max_x) = Some (wy, wx, w)
           \<and> string_at_loop (Suc fuel) buf W table max_x search_y x final_string
             = string_at_loop fuel buf W table max_x search_y (x + width w)
                 (final_string @ [first_char w])"
      by blast
  }
qed

theorem string_at_loop_decodes_witness:
  "string_at_loop (Suc (Suc (Suc 0))) inked_screen 140 [cand_N, cand_D] 125 120 120 []
     = Inr [0x4E, 0x44]
   \<and> string_at_loop (Suc 0) inked_screen 140 [cand_D] 135 300 130 [] = Inr []"
proof -
  define s1 where "s1 = (\<lambda>p :: u32 \<times> u32 \<times> MonochromeImage.
     case match inked_screen 140 (snd (snd p)) (120 + fst (snd p)) (120 + fst p) of
       Inr v \<Rightarrow> v | Inl e \<Rightarrow> 0)"
  have ms1: "\<forall>p \<in> set (tried [cand_N, cand_D] 120 125).
     match inked_screen 140 (snd (snd p)) (120 + fst (snd p)) (120 + fst p) = Inr (s1 p)"
    unfolding tried_120 s1_def by (simp add: decode_eval)
  have best1: "Max (insert 0 (s1 ` set (tried [cand_N, cand_D] 120 125))) = 1"
    unfolding tried_120 s1_def by (simp add: decode_eval)
  have find1: "find (\<lambda>p. s1 p = 1) (tried [cand_N, cand_D] 120 125) = Some (0, 0, cand_N)"
    unfolding tried_120 s1_def by (simp add: decode_eval)
  have step1: "string_at_loop (Suc (Suc (Suc 0))) inked_screen 140 [cand_N, cand_D] 125 120 120 []
     = string_at_loop (Suc (Suc 0)) inked_screen 140 [cand_N, cand_D] 125 120 124 [0x4E]"
    using string_at_loop_decodes [where table = "[cand_N, cand_D]" and x = 120 and max_x = 125
        and buf = inked_screen and W = 140 and search_y = 120 and s = s1 and fuel = "Suc (Suc 0)"
        and final_string = "[]", OF ms1]
    unfolding best1 find1 by (simp add: cand_N_def first_char_def del: string_at_loop.simps)
  define s2 where "s2 = (\<lambda>p :: u32 \<times> u32 \<times> MonochromeImage.
     case match inked_screen 140 (snd (snd p)) (124 + fst (snd p)) (120 + fst p) of
       Inr v \<Rightarrow> v | Inl e \<Rightarrow> 0)"
  have ms2: "\<forall>p \<in> set (tried [cand_N, cand_D] 124 125).
     match inked_screen 140 (snd (snd p)) (124 + fst (snd p)) (120 + fst p) = Inr (s2 p)"
    unfolding tried_124 s2_def by (simp add: decode_eval)
  have best2: "Max (insert 0 (s2 ` set (tried [cand_N, cand_D] 124 125))) = 1"
    unfolding tried_124 s2_def by (simp add: decode_eval)
  have find2: "find (\<lambda>p. s2 p = 1) (tried [cand_N, cand_D] 124 125) = Some (0, - 3, cand_D)"
    unfolding tried_124 s2_def by (simp add: decode_eval)
  have step2: "string_at_loop (Suc (Suc 0)) inked_screen 140 [cand_N, cand_D] 125 120 124 [0x4E]
     = string_at_loop (Suc 0) inked_screen 140 [cand_N, cand_D] 125 120 125 [0x4E, 0x44]"
    using string_at_loop_decodes [where table = "[cand_N, cand_D]" and x = 124 and max_x = 125
        and buf = inked_screen and W = 140 and search_y = 120 and s = s2 and fuel = "Suc 0"
        and final_string = "[0x4E]", OF ms2]
    unfolding best2 find2 by (simp add: cand_D_def first_char_def del: string_at_loop.simps)
  have ms3: "\<forall>p \<in> set (tried [cand_N, cand_D] 125 125).
     match inked_screen 140 (snd (snd p)) (125 + fst (snd p)) (120 + fst p) = Inr 0"
    unfolding tried_125 by simp
  have step3: "string_at_loop (Suc 0) inked_screen 140 [cand_N, cand_D] 125 120 125 [0x4E, 0x44]
     = Inr [0x4E, 0x44]"
    using string_at_loop_decodes [where table = "[cand_N, cand_D]" and x = 125 and max_x = 125
        and buf = inked_screen and W = 140 and search_y = 120 and s = "\<lambda>p. 0" and fuel = 0
        and final_string = "[0x4E, 0x44]", OF ms3]
    by (simp del: string_at_loop.simps)
  define s4 where "s4 = (\<lambda>p :: u32 \<times> u32 \<times> MonochromeImage.
     case match inked_screen 140 (snd (snd p)) (130 + fst (snd p)) (300 + fst p) of
       Inr v \<Rightarrow> v | Inl e \<Rightarrow> 0)"
  have ms4: "\<forall>p \<in> set (tried [cand_D] 130 135).
     match inked_screen 140 (snd (snd p)) (130 + fst (snd p)) (300 + fst p) = Inr (s4 p)"
    unfolding tried_130 s4_def by (simp add: decode_eval)
  have best4: "Max (insert 0 (s4 ` set (tried [cand_D] 130 135))) = 0"
    unfolding tried_130 s4_def by (simp add: decode_eval)
  have stop: "string_at_loop (Suc 0) inked_screen 140 [cand_D] 135 300 130 [] = Inr []"
    using string_at_loop_decodes [where table = "[cand_D]" and x = 130 and max_x = 135
        and buf = inked_screen and W = 140 and search_y = 300 and s = s4 and fuel = 0
        and final_string = "[]", OF ms4]
    unfolding best4 by (simp del: string_at_loop.simps)
  show ?thesis
    using step1 step2 step3 stop by (simp del: string_at_loop.simps)
qed

text \<open>
  Claim C7, as the code has it. The line height of the segmenter is
  \<open>line_height_search\<close>, the ascending height alone. On a screenshot buffer of
  \<open>width * 480\<close> pixels \<open>skip_to_next_line\<close> moves the cursor by half of it (the signed
  quotient) and then returns the first cursor from there on that is not below 480 or
  whose row has no ink in the span \<open>[deaths_x, width)\<close>: every row it passed is below
  480 and has ink in the span. The presence check, when its rows
  \<open>y_cursor .. y_cursor + line_height_search - 1\<close> end at or before row 480, tells
  whether one of these rows has ink in the span. The loop over the rows runs the
  presence check first: without ink it ends with the rows decoded so far, with ink it
  decodes the row at the cursor, calls \<open>skip_to_next_line\<close> and goes on.
\<close>

theorem row_segmentation_on_ascending_height:
  assumes "wf_screen buf W"
  shows "line_height_search font = swap_endian16 (ascending_height font)
   \<and> (\<exists>y'. skip_to_next_line buf W dx font y = Inr y'
          \<and> y + word_of_int (sint (line_height_search font) sdiv 2) \<le> y'
          \<and> (\<forall>r. y + word_of_int (sint (line_height_search font) sdiv 2) \<le> r \<and> r < y'
                 \<longrightarrow> r < 480 \<and> row_has_ink buf W dx r)
          \<and> (y' < 480 \<longrightarrow> \<not> row_has_ink buf W dx y'))
   \<and> (y + scast (line_height_search font) \<le> 480 \<longrightarrow>
        found_something buf W dx font y
        = Inr (list_ex (row_has_ink buf W dx) (range32 y (y + scast (line_height_search font)))))
   \<and> (found_something buf W dx font y = Inr False \<longrightarrow>
        rows_loop (Suc fuel) decode_row buf W dx font y rows = Inr rows)
   \<and> (found_something buf W dx font y = Inr True \<longrightarrow>
        rows_loop (Suc fuel) decode_row buf W dx font y rows
        = and_then (decode_row y rows) (\<lambda>rows'.
          and_then (skip_to_next_line buf W dx font y) (\<lambda>y_cursor'.
            rows_loop fuel decode_row buf W dx font y_cursor' rows')))"
proof (intro conjI impI)
  show "line_height_search font = swap_endian16 (ascending_height font)"
    by (simp add: line_height_search_def)
  show "\<exists>y'. skip_to_next_line buf W dx font y = Inr y'
          \<and> y + word_of_int (sint (line_height_search font) sdiv 2) \<le> y'
          \<and> (\<forall>r. y + word_of_int (sint (line_height_search font) sdiv 2) \<le> r \<and> r < y'
                 \<longrightarrow> r < 480 \<and> row_has_ink buf W dx r)
          \<and> (y' < 480 \<longrightarrow> \<not> row_has_ink buf W dx y')"
    unfolding skip_to_next_line_def by (rule skip_loop_result [OF assms])
next
  assume "y + scast (line_height_search font) \<le> 480"
  then show "found_something buf W dx font y
        = Inr (list_ex (row_has_ink buf W dx) (range32 y (y + scast (line_height_search font))))"
    by (rule found_something_result [OF assms])
next
  assume "found_something buf W dx font y = Inr False"
  then show "rows_loop (Suc fuel) decode_row buf W dx font y rows = Inr rows"
    by simp
next
  assume "found_something buf W dx font y = Inr True"
  then show "rows_loop (Suc fuel) decode_row buf W dx font y rows
        = and_then (decode_row y rows) (\<lambda>rows'.
          and_then (skip_to_next_line buf W dx font y) (\<lambda>y_cursor'.
            rows_loop fuel decode_row buf W dx font y_cursor' rows'))"
    by simp
qed

theorem row_segmentation_on_ascending_height_witness:
  "skip_to_next_line rows_screen 140 135 tall_font 120 = Inr 121
   \<and> found_something rows_screen 140 135 tall_font 121 = Inr True
   \<and> found_something rows_screen 140 135 tall_font 123 = Inr False
   \<and> rows_loop 2 (\<lambda>y rows. Inr (y # rows)) rows_screen 140 135 tall_font 121 [] = Inr [121]"
proof -
  note seg = row_segmentation_on_ascending_height [OF wf_rows_screen, where font = tall_font
      and dx = 135]
  have half: "(120 :: u32) + word_of_int (sint (line_height_search tall_font) sdiv 2) = 121"
    by (simp add: tall_line_height signed_divide_int_def)
  from seg [where y = 120, THEN conjunct2, THEN conjunct1]
  obtain y' :: u32 where r: "skip_to_next_line rows_screen 140 135 tall_font 120 = Inr y'"
    and le: "121 \<le> y'"
    and mid: "\<forall>r. 121 \<le> r \<and> r < y' \<longrightarrow> r < 480 \<and> row_has_ink rows_screen 140 135 r"
    unfolding half by blast
  have "\<not> row_has_ink rows_screen 140 135 121"
    by (simp add: rows_screen_ink)
  then have "\<not> 121 < y'"
    using mid by auto
  then have a: "skip_to_next_line rows_screen 140 135 tall_font 120 = Inr 121"
    using r le by simp
  have b: "found_something rows_screen 140 135 tall_font 121 = Inr True"
    using seg [where y = 121, THEN conjunct2, THEN conjunct2, THEN conjunct1]
    by (simp add: tall_line_height range32_def upt_rec rows_screen_ink)
  have c: "found_something rows_screen 140 135 tall_font 123 = Inr False"
    using seg [where y = 123, THEN conjunct2, THEN conjunct2, THEN conjunct1]
    by (simp add: tall_line_height range32_def upt_rec rows_screen_ink)
  have d: "rows_loop (Suc 0) (\<lambda>y rows. Inr (y # rows)) rows_screen 140 135 tall_font 123 [121]
           = Inr [121]"
    using seg [where y = 123 and fuel = 0 and decode_row = "\<lambda>y rows. Inr (y # rows)"
        and rows = "[121]", THEN conjunct2, THEN conjunct2, THEN conjunct2, THEN conjunct1] c
    by simp
  have e: "rows_loop (Suc (Suc 0)) (\<lambda>y rows. Inr (y # rows)) rows_screen 140 135 tall_font 121 []
           = Inr [121]"
    using seg [where y = 121 and fuel = "Suc 0" and decode_row = "\<lambda>y rows. Inr (y # rows)"
        and rows = "[]", THEN conjunct2, THEN conjunct2, THEN conjunct2, THEN conjunct2] b
    by (simp add: skip_rows_screen_2 d del: rows_loop.simps)
  have "rows_loop 2 (\<lambda>y rows. Inr (y # rows)) rows_screen 140 135 tall_font 121 [] = Inr [121]"
    using e by (simp only: numeral_2_eq_2)
  then show ?thesis
    using a b c by (intro conjI)
qed

text \<open>
  Claim C7 as stated fails: with ascending height 2 and descending height 2 the cursor
  moves from 120 by 1, not by 2, and stops at the blank row 121, where half of the sum
  of the two heights leads to row 122 and on to 123; and the presence check at row 123
  scans the rows 123 and 124 and finds nothing, where the four rows of the sum reach the
  ink in row 126.
\<close>

theorem row_segmentation_line_height_counterexample:
  "line_height_search tall_font = 2
   \<and> line_height_as_claimed tall_font = 4
   \<and> skip_to_next_line rows_screen 140 135 tall_font 120 = Inr 121
   \<and> skip_to_next_line_as_claimed rows_screen 140 135 tall_font 120 = Inr 123
   \<and> found_something rows_screen 140 135 tall_font 123 = Inr False
   \<and> found_something_as_claimed rows_screen 140 135 tall_font 123 = Inr True"
  by (intro conjI tall_line_height tall_line_height_as_claimed skip_rows_screen
      skip_rows_screen_as_claimed found_rows_screen_123 found_rows_screen_as_claimed)

text \<open>
  Claim C8, as the code has it. The counter that the source calls \<open>players_below\<close>
  is incremented for the rows that beat the current row, and for the rows fully tied
  with it: a row's placement is one plus the number of other rows that outrank it or
  are fully tied with it (score descending, then kills descending, then deaths
  ascending, then assists descending). Rows tied on all four statistics receive the
  same placement.
\<close>

theorem places_one_plus_rows_not_below:
  "length (places ps) = length ps
   \<and> (\<forall>i<length ps. places ps ! i =
        1 + length (filter (\<lambda>j. j \<noteq> i \<and> (outranks (ps ! j) (ps ! i) \<or> fully_tied (ps ! i) (ps ! j)))
                      [0..<length ps]))
   \<and> (\<forall>i<length ps. \<forall>j<length ps. fully_tied (ps ! i) (ps ! j) \<longrightarrow> places ps ! i = places ps ! j)"
  using place_eq [of _ ps] tied_same_place [of _ ps]
  by (simp add: places_def)

theorem places_one_plus_rows_not_below_witness:
  "length (places sample_rows) = 5
   \<and> places sample_rows ! 2 = 4
   \<and> length (filter (\<lambda>j. j \<noteq> 2 \<and> (outranks (sample_rows ! j) (sample_rows ! 2)
                                  \<or> fully_tied (sample_rows ! 2) (sample_rows ! j))) [0..<5]) = 3
   \<and> fully_tied (sample_rows ! 0) (sample_rows ! 1)
   \<and> places sample_rows ! 0 = places sample_rows ! 1"
proof -
  have len: "length sample_rows = 5"
    by (simp add: sample_rows_def)
  have tied: "fully_tied (sample_rows ! 0) (sample_rows ! 1)"
    by (simp add: sample_rows_def fully_tied_def)
  note main = places_one_plus_rows_not_below [of sample_rows]
  note at_index = main [THEN conjunct2, THEN conjunct1, rule_format]
  note at_tie = main [THEN conjunct2, THEN conjunct2, rule_format]
  have "places sample_rows ! 2 =
      1 + length (filter (\<lambda>j. j \<noteq> 2 \<and> (outranks (sample_rows ! j) (sample_rows ! 2)
                                  \<or> fully_tied (sample_rows ! 2) (sample_rows ! j))) [0..<5])"
    using at_index [of 2] len by simp
  moreover have "places sample_rows ! 0 = places sample_rows ! 1"
    using at_tie [of 0 1] tied len by simp
  moreover from main len have "length (places sample_rows) = 5"
    by simp
  ultimately show ?thesis
    using tied by (simp add: sample_rows_places)
qed

text \<open>
  The claim as the specification states it (one plus the number of rows ranking below)
  fails on two rows with scores 10 and 5: the code places the row with score 10 first,
  while one row ranks below it.
\<close>

theorem places_rows_below_counterexample:
  "places [stats 10 0 0 0, stats 5 0 0 0] ! 0 = 1
   \<and> claimed_place [stats 10 0 0 0, stats 5 0 0 0] 0 = 2"
  by (simp add: places_def claimed_place_def stats_def counts_against_def outranks_def
      fully_tied_def upt_rec)

text \<open>
  Claim C10 fails on the code. On the sample screenshot (140 by 480 pixels) the five
  headers are found, \<open>deaths_x\<close> is 135 and \<open>y_cursor\<close> starts at 120. The column of
  ink below the header makes \<open>skip_to_next_line\<close> stop at its bound \<open>y_cursor = 480\<close>.
  The presence check that follows has no such bound: it scans row 480, and its first
  read is at index \<open>135 + 480 * 140 = 67335\<close> of a vector of 67200 pixels.
\<close>

theorem presence_check_reads_row_480:
  "find_headers calib_pool calib_characters calib_font inked_screen 140
     = Inr \<lparr>name_x = 120, name_y = 120, score_x = 124, score_y = 110, kills_x = 128,
            kills_y = 110, assists_x = 132, assists_y = 110, deaths_x = 135, deaths_y = 110\<rparr>
   \<and> length inked_screen = 140 * 480
   \<and> skip_to_next_line inked_screen 140 135 calib_font 120 = Inr 480
   \<and> range32 480 (480 + scast (line_height_search calib_font)) = [480]
   \<and> row_span 140 135 480 = [67335, 67336, 67337, 67338, 67339]
   \<and> read_at inked_screen 67335 = Inl OutOfBounds
   \<and> found_something inked_screen 140 135 calib_font 480 = Inl OutOfBounds
   \<and> read_scoreboard (Suc fuel) decode_row calib_pool calib_characters calib_font inked_screen 140 rows
     = Inl OutOfBounds"
proof (intro conjI)
  show h: "find_headers calib_pool calib_characters calib_font inked_screen 140
     = Inr \<lparr>name_x = 120, name_y = 120, score_x = 124, score_y = 110, kills_x = 128,
            kills_y = 110, assists_x = 132, assists_y = 110, deaths_x = 135, deaths_y = 110\<rparr>"
    by (simp add: find_headers_def find_Name find_Score find_Kills find_Assists find_Deaths)
  show "length inked_screen = 140 * 480"
    by (simp add: inked_screen_def)
  show "skip_to_next_line inked_screen 140 135 calib_font 120 = Inr 480"
    by (rule skip_inked_screen)
  show "range32 480 (480 + scast (line_height_search calib_font)) = [480]"
    by (simp add: calib_line_height range32_def upt_rec)
  show "row_span 140 135 480 = [67335, 67336, 67337, 67338, 67339]"
    by (rule row_span_480)
  show "read_at inked_screen 67335 = Inl OutOfBounds"
    by (simp add: read_at_def inked_screen_def)
  show "found_something inked_screen 140 135 calib_font 480 = Inl OutOfBounds"
    by (rule found_something_480)
  show "read_scoreboard (Suc fuel) decode_row calib_pool calib_characters calib_font inked_screen 140 rows
     = Inl OutOfBounds"
    by (simp add: read_scoreboard_def h skip_inked_screen found_something_480)
qed


end
